theory Spec2Isabelle
  imports Complex_Main "HOL-Library.Multiset" "HOL-Library.Product_Lexorder"
begin

section \<open>Scene data\<close>

text \<open>
  The scripts drive Blender through its Python interface. The scene is modelled as the
  scripts read it: an object has a name, a type, an ordered list of material slots (a
  slot references a material or is empty), UV layers and polygons. Materials are
  referenced by identity, which is a natural number here. A UV coordinate is a pair of
  rationals: a finite float denotes a rational, and the comparisons the code makes
  (sorting, equality) agree with those of the denoted numbers.
\<close>

type_synonym uv = "rat \<times> rat"

record polygon =
  material_index :: nat
  loop_indices :: "nat list"

record obj =
  obj_name :: string
  obj_type :: string
  material_slots :: "nat option list"
  uv_layers :: "uv list list"
  uv_active :: nat
  polygons :: "polygon list"

text \<open>
  A fingerprint is a Python value: one of the three sentinel strings, or the integer
  that \<open>hash\<close> returns. A string never equals an integer.
\<close>

datatype py_value = Str string | IntV int

datatype error =
    SlotIndexError
  | LoopIndexError
  | NoActiveLayer
  | DanglingSocket
  | BakeError
  | SaveError
  | FolderError
  | NotSaved
  | NoMaterials

section \<open>MaterialManager.get\_uv\_hash\<close>

text \<open>
  \<open>round(x, 4)\<close>: the nearest multiple of one ten-thousandth, a tie going to the
  even one.
\<close>

definition round_half_even :: "rat \<Rightarrow> int" where
  "round_half_even y =
     (let f = \<lfloor>y\<rfloor>; d = y - of_int f
      in if d < 1 / 2 then f
         else if 1 / 2 < d then f + 1
         else if even f then f else f + 1)"

definition py_round4 :: "rat \<Rightarrow> rat" where
  "py_round4 x = of_int (round_half_even (x * 10000)) / 10000"

text \<open>\<open>obj.material_slots[i]\<close>: an index out of range raises.\<close>

definition slot_at :: "nat option list \<Rightarrow> nat \<Rightarrow> error + nat option" where
  "slot_at slots i = (if i < length slots then Inr (slots ! i) else Inl SlotIndexError)"

text \<open>
  \<open>obj.data.uv_layers.active.data\<close>: the loop data of the active layer; with no
  active layer the attribute access raises.
\<close>

definition active_data :: "obj \<Rightarrow> error + uv list" where
  "active_data ob =
     (if uv_active ob < length (uv_layers ob) then Inr (uv_layers ob ! uv_active ob)
      else Inl NoActiveLayer)"

text \<open>The inner loop over \<open>poly.loop_indices\<close> (lines 71 to 73).\<close>

fun loop_uvs :: "obj \<Rightarrow> nat list \<Rightarrow> error + uv list" where
  "loop_uvs ob [] = Inr []"
| "loop_uvs ob (i # rest) =
     (case active_data ob of
        Inl e \<Rightarrow> Inl e
      | Inr d \<Rightarrow>
          if i < length d then
            (case loop_uvs ob rest of
               Inl e \<Rightarrow> Inl e
             | Inr r \<Rightarrow> Inr ((py_round4 (fst (d ! i)), py_round4 (snd (d ! i))) # r))
          else Inl LoopIndexError)"

text \<open>The loop over \<open>obj.data.polygons\<close> (lines 67 to 73).\<close>

fun collect_uv_coords :: "obj \<Rightarrow> nat option \<Rightarrow> polygon list \<Rightarrow> error + uv list" where
  "collect_uv_coords ob m [] = Inr []"
| "collect_uv_coords ob m (p # ps) =
     (if material_index p < length (material_slots ob) then
        (case slot_at (material_slots ob) (material_index p) of
           Inl e \<Rightarrow> Inl e
         | Inr sm \<Rightarrow>
             if sm = m then
               (case loop_uvs ob (loop_indices p) of
                  Inl e \<Rightarrow> Inl e
                | Inr uvs \<Rightarrow>
                    (case collect_uv_coords ob m ps of
                       Inl e \<Rightarrow> Inl e
                     | Inr r \<Rightarrow> Inr (uvs @ r)))
             else collect_uv_coords ob m ps)
      else collect_uv_coords ob m ps)"

text \<open>
  The fingerprint. The material argument is whatever a slot can hold (a material or
  \<open>None\<close>); the keys of \<open>material_indices\<close> are the contents of the slots.
  Python's \<open>hash\<close> of a tuple of pairs of floats is a parameter \<open>h\<close>: a function of
  the sorted sequence.
\<close>

definition get_uv_hash :: "(uv list \<Rightarrow> int) \<Rightarrow> obj \<Rightarrow> nat option \<Rightarrow> error + py_value" where
  "get_uv_hash h ob m =
     (if uv_layers ob = [] then Inr (Str ''no_uv'')
      else if m \<notin> set (material_slots ob) then Inr (Str ''material_not_found'')
      else
        (case collect_uv_coords ob m (polygons ob) of
           Inl e \<Rightarrow> Inl e
         | Inr uv_coords \<Rightarrow>
             if uv_coords \<noteq> [] then Inr (IntV (h (sort uv_coords)))
             else Inr (Str ''empty_uv'')))"

text \<open>The list the code tests fingerprints against (lines 102, 116 and 321).\<close>

definition sentinels :: "py_value list" where
  "sentinels = [Str ''no_uv'', Str ''material_not_found'', Str ''empty_uv'']"

section \<open>Shading graphs\<close>

text \<open>
  A material owns a node tree: nodes and links. The operations below are those of
  Blender's interface that the scripts call, with the behaviour the scripts rely on:
  a new node is appended to the collection; an input socket holds at most one link,
  so linking into an input that is linked replaces that link; removing a node removes
  the links attached to it. A node has an identity (\<open>node_id\<close>), which a socket
  refers to. Linking a socket whose node is no longer in the tree raises. The
  uniqueness suffix that Blender adds to a name that is taken, the link limit of an
  output socket and multi-input sockets are outside the model.
\<close>

datatype node_kind = EMISSION | VALUE | BSDF_PRINCIPLED | OUTPUT_MATERIAL | TEX_IMAGE | OTHER string

datatype socket = Inp nat string | Outp nat nat

fun socket_node :: "socket \<Rightarrow> nat" where
  "socket_node (Inp n k) = n"
| "socket_node (Outp n i) = n"

text \<open>
  \<open>node_value\<close> is the default value of the one socket the scripts read or write on
  a node: the Metallic input of a Principled node, output 0 of a Value node.
\<close>

record node =
  node_id :: nat
  node_name :: string
  node_type :: node_kind
  node_select :: bool
  node_image :: "string option"
  node_value :: rat

record node_tree =
  nodes :: "node list"
  links :: "(socket \<times> socket) list"
  active_node :: "nat option"
  next_node :: nat

record material =
  mat_name :: string
  use_nodes :: bool
  tree :: node_tree

fun default_name :: "node_kind \<Rightarrow> string" where
  "default_name EMISSION = ''Emission''"
| "default_name VALUE = ''Value''"
| "default_name BSDF_PRINCIPLED = ''Principled BSDF''"
| "default_name OUTPUT_MATERIAL = ''Material Output''"
| "default_name TEX_IMAGE = ''Image Texture''"
| "default_name (OTHER k) = k"

text \<open>\<open>nodes.new(type)\<close>: the new node and the tree that holds it.\<close>

definition nodes_new :: "node_tree \<Rightarrow> node_kind \<Rightarrow> node \<times> node_tree" where
  "nodes_new t k =
     (let n = \<lparr>node_id = next_node t, node_name = default_name k, node_type = k,
                node_select = False, node_image = None, node_value = 0\<rparr>
      in (n, t\<lparr>nodes := nodes t @ [n], next_node := Suc (next_node t)\<rparr>))"

text \<open>\<open>nodes.get(name)\<close>: the node of that name, or \<open>None\<close>.\<close>

definition nodes_get :: "node_tree \<Rightarrow> string \<Rightarrow> node option" where
  "nodes_get t name = find (\<lambda>n. node_name n = name) (nodes t)"

text \<open>\<open>nodes.remove(node)\<close>: the node goes, and every link on one of its sockets.\<close>

definition nodes_remove :: "node_tree \<Rightarrow> nat \<Rightarrow> node_tree" where
  "nodes_remove t i =
     t\<lparr>nodes := filter (\<lambda>n. node_id n \<noteq> i) (nodes t),
       links := filter (\<lambda>(f, s). socket_node f \<noteq> i \<and> socket_node s \<noteq> i) (links t),
       active_node := (if active_node t = Some i then None else active_node t)\<rparr>"

text \<open>\<open>links.new(from_socket, to_socket)\<close>.\<close>

definition links_new :: "node_tree \<Rightarrow> socket \<Rightarrow> socket \<Rightarrow> error + node_tree" where
  "links_new t f s =
     (if socket_node f \<in> node_id ` set (nodes t) \<and> socket_node s \<in> node_id ` set (nodes t)
      then Inr (t\<lparr>links := filter (\<lambda>(f', s'). s' \<noteq> s) (links t) @ [(f, s)]\<rparr>)
      else Inl DanglingSocket)"

text \<open>Writing a field of the node with a given identity.\<close>

definition update_node :: "nat \<Rightarrow> (node \<Rightarrow> node) \<Rightarrow> node_tree \<Rightarrow> node_tree" where
  "update_node i f t = t\<lparr>nodes := map (\<lambda>n. if node_id n = i then f n else n) (nodes t)\<rparr>"

section \<open>MaterialManager: the bake node and the metallic reroute\<close>

text \<open>\<open>setup_bake_node\<close> (lines 136 to 153), on the material's tree.\<close>

definition setup_bake_node :: "material \<Rightarrow> node \<times> material" where
  "setup_bake_node mat =
     (let mat1 = mat\<lparr>use_nodes := True\<rparr>;
          t = tree mat1;
          t1 = (case nodes_get t ''Bake_Target'' of
                  Some existing \<Rightarrow> nodes_remove t (node_id existing)
                | None \<Rightarrow> t);
          (bake_node, t2) = nodes_new t1 TEX_IMAGE;
          t3 = update_node (node_id bake_node) (\<lambda>n. n\<lparr>node_name := ''Bake_Target''\<rparr>) t2;
          t4 = update_node (node_id bake_node) (\<lambda>n. n\<lparr>node_select := True\<rparr>) t3;
          t5 = t4\<lparr>active_node := Some (node_id bake_node)\<rparr>
      in (bake_node, mat1\<lparr>tree := t5\<rparr>))"

text \<open>
  \<open>setup_metallic_nodes\<close> (lines 155 to 191). The result is the tree as the call
  leaves it, with the snapshot of the links when the call returns and the error when
  it raises.
\<close>

definition setup_metallic_nodes :: "node_tree \<Rightarrow> (error + (socket \<times> socket) list) \<times> node_tree" where
  "setup_metallic_nodes t =
     (let original_links = links t;
          (emit, t1) = nodes_new t EMISSION;
          (output, t2) = (case nodes_get t1 ''Material Output'' of
                            Some n \<Rightarrow> (n, t1)
                          | None \<Rightarrow> nodes_new t1 OUTPUT_MATERIAL);
          (principled, t3) = (case find (\<lambda>n. node_type n = BSDF_PRINCIPLED) (nodes t2) of
                                Some n \<Rightarrow> (n, t2)
                              | None \<Rightarrow> nodes_new t2 BSDF_PRINCIPLED);
          metallic_socket = Inp (node_id principled) ''Metallic'';
          (r4, t4) =
            (case find (\<lambda>(f, s). s = metallic_socket) (links t3) of
               Some (f, s) \<Rightarrow>
                 (case links_new t3 f (Inp (node_id emit) ''Strength'') of
                    Inl e \<Rightarrow> (Some e, t3)
                  | Inr t' \<Rightarrow> (None, t'))
             | None \<Rightarrow>
                 (let (val, tv) = nodes_new t3 VALUE;
                      tv' = update_node (node_id val)
                              (\<lambda>n. n\<lparr>node_value := node_value principled\<rparr>) tv
                  in case links_new tv' (Outp (node_id val) 0) (Inp (node_id emit) ''Strength'') of
                       Inl e \<Rightarrow> (Some e, tv')
                     | Inr t' \<Rightarrow> (None, t')))
      in case r4 of
           Some e \<Rightarrow> (Inl e, t4)
         | None \<Rightarrow>
             (case links_new t4 (Outp (node_id emit) 0) (Inp (node_id output) ''Surface'') of
                Inl e \<Rightarrow> (Inl e, t4)
              | Inr t5 \<Rightarrow> (Inr original_links, t5)))"

text \<open>
  \<open>restore_material_links\<close> (lines 193 to 206). The first loop is read as removing
  every node of type EMISSION or VALUE that the collection holds when the loop starts.
\<close>

fun remove_nodes :: "node_tree \<Rightarrow> node list \<Rightarrow> node_tree" where
  "remove_nodes t [] = t"
| "remove_nodes t (n # ns) =
     (if node_type n \<in> {EMISSION, VALUE} then remove_nodes (nodes_remove t (node_id n)) ns
      else remove_nodes t ns)"

fun relink :: "node_tree \<Rightarrow> (socket \<times> socket) list \<Rightarrow> error option \<times> node_tree" where
  "relink t [] = (None, t)"
| "relink t ((from_socket, to_socket) # rest) =
     (case links_new t from_socket to_socket of
        Inl e \<Rightarrow> (Some e, t)
      | Inr t' \<Rightarrow> relink t' rest)"

definition restore_material_links :: "node_tree \<Rightarrow> (socket \<times> socket) list \<Rightarrow> error option \<times> node_tree" where
  "restore_material_links t original_links = relink (remove_nodes t (nodes t)) original_links"

section \<open>The scene\<close>

text \<open>
  The state the scripts work on: the objects of the scene, the materials (by
  identity; \<open>data_materials\<close> lists those registered in \<open>bpy.data.materials\<close> and
  \<open>next_material\<close> is the identity the next copy gets), the names of the images, the
  selection and the active object, the folders that exist, and a trace of the calls
  made to the renderer, to the file system and to the reroute and restore steps. The
  trace is not data of the scripts: it records what they did. A name is stored as it
  is assigned: Blender's limit on the length of a name is outside the model.
\<close>

datatype event =
    Bake nat "nat option" string
  | Save string string
  | Reroute nat
  | Restore nat

record scene =
  objects :: "obj list"
  materials :: "nat \<Rightarrow> material"
  data_materials :: "nat list"
  next_material :: nat
  images :: "string list"
  selected :: "nat list"
  active_object :: "nat option"
  folders :: "string list"
  trace :: "event list"

section \<open>MaterialManager.duplicate\_shared\_materials\<close>

text \<open>
  A usage is an (object, slot) pair; both are references, modelled as the index of the
  object in the scene and the index of the slot in the object. \<open>material_usage\<close> is
  a dictionary that keeps the order in which its keys were inserted.
\<close>

type_synonym usage = "nat \<times> nat"

type_synonym usage_dict = "((nat \<times> py_value) \<times> usage list) list"

definition dict_append :: "'k \<Rightarrow> 'v \<Rightarrow> ('k \<times> 'v list) list \<Rightarrow> ('k \<times> 'v list) list" where
  "dict_append k v d =
     (if k \<in> fst ` set d then map (\<lambda>(k', vs). if k' = k then (k', vs @ [v]) else (k', vs)) d
      else d @ [(k, [v])])"

text \<open>The (object, slot) pairs in the order the two loops of pass 1 visit them.\<close>

definition usage_sites :: "obj list \<Rightarrow> usage list" where
  "usage_sites obs =
     concat (map (\<lambda>oi. if obj_type (obs ! oi) = ''MESH''
                        then map (Pair oi) [0..<length (material_slots (obs ! oi))]
                        else [])
                 [0..<length obs])"

text \<open>The body of pass 1 (lines 88 to 98); an error of the fingerprint skips the usage.\<close>

definition record_usage :: "(uv list \<Rightarrow> int) \<Rightarrow> obj list \<Rightarrow> usage \<Rightarrow> usage_dict \<Rightarrow> usage_dict" where
  "record_usage h obs u d =
     (case material_slots (obs ! fst u) ! snd u of
        None \<Rightarrow> d
      | Some m \<Rightarrow>
          (case get_uv_hash h (obs ! fst u) (Some m) of
             Inl e \<Rightarrow> d
           | Inr uv_hash \<Rightarrow> dict_append (m, uv_hash) u d))"

definition material_usage :: "(uv list \<Rightarrow> int) \<Rightarrow> obj list \<Rightarrow> usage_dict" where
  "material_usage h obs = fold (record_usage h obs) (usage_sites obs) []"

text \<open>\<open>original_material.copy()\<close>, the new name, and the assignment to the slot.\<close>

definition copy_material :: "nat \<Rightarrow> scene \<Rightarrow> nat \<times> scene" where
  "copy_material m s =
     (next_material s,
      s\<lparr>materials := (materials s)(next_material s := materials s m),
        data_materials := data_materials s @ [next_material s],
        next_material := Suc (next_material s)\<rparr>)"

definition set_material_name :: "nat \<Rightarrow> string \<Rightarrow> scene \<Rightarrow> scene" where
  "set_material_name m name s = s\<lparr>materials := (materials s)(m := (materials s m)\<lparr>mat_name := name\<rparr>)\<rparr>"

definition set_slot :: "usage \<Rightarrow> nat option \<Rightarrow> scene \<Rightarrow> scene" where
  "set_slot u v s =
     s\<lparr>objects := (objects s)[fst u :=
         (objects s ! fst u)\<lparr>material_slots := (material_slots (objects s ! fst u))[snd u := v]\<rparr>]\<rparr>"

text \<open>The loop over \<open>usages[1:]\<close> (lines 112 to 127).\<close>

fun other_users :: "(uv list \<Rightarrow> int) \<Rightarrow> nat \<Rightarrow> py_value \<Rightarrow> usage list \<Rightarrow> scene \<Rightarrow> scene" where
  "other_users h original_material uv_hash [] s = s"
| "other_users h original_material uv_hash (u # rest) s =
     (let ob = objects s ! fst u in
      case get_uv_hash h ob (material_slots ob ! snd u) of
        Inl e \<Rightarrow> other_users h original_material uv_hash rest s
      | Inr current_uv_hash \<Rightarrow>
          if current_uv_hash \<noteq> uv_hash \<and> current_uv_hash \<notin> set sentinels then
            (let (new_material, s1) = copy_material original_material s;
                 s2 = set_material_name new_material
                        (mat_name (materials s1 original_material) @ ''_INSTANCE_'' @ obj_name ob) s1;
                 s3 = set_slot u (Some new_material) s2
             in other_users h original_material uv_hash rest s3)
          else other_users h original_material uv_hash rest s)"

text \<open>The body of pass 2 for one entry of the dictionary (lines 101 to 127).\<close>

definition process_group :: "(uv list \<Rightarrow> int) \<Rightarrow> (nat \<times> py_value) \<times> usage list \<Rightarrow> scene \<Rightarrow> scene" where
  "process_group h entry s =
     (let original_material = fst (fst entry); uv_hash = snd (fst entry); usages = snd entry in
      if 1 < length usages \<and> uv_hash \<notin> set sentinels then
        (let first_obj = objects s ! fst (hd usages);
             master_material_name =
               mat_name (materials s original_material) @ ''_MASTER_'' @ obj_name first_obj;
             s1 = set_material_name original_material master_material_name s
         in other_users h original_material uv_hash (tl usages) s1)
      else s)"

definition duplicate_shared_materials :: "(uv list \<Rightarrow> int) \<Rightarrow> scene \<Rightarrow> scene" where
  "duplicate_shared_materials h s = fold (process_group h) (material_usage h (objects s)) s"

section \<open>The collaborators: renderer and file system\<close>

text \<open>
  What the scripts cannot decide is a parameter. \<open>bake_outcome\<close> tells how a call of
  \<open>bpy.ops.object.bake\<close> and the \<open>save_render\<close> that follows it end, given the state
  at the call, the material whose maps are baked and the bake type; the state holds the
  trace, so two calls can end differently. Neither call changes the scene. \<open>makedirs_ok\<close> tells whether a folder can be created. \<open>set_order\<close> is
  the order in which Python lists a set. Paths are POSIX paths.
\<close>

datatype outcome = BakeRaises | SaveRaises | Done

record env =
  bake_outcome :: "scene \<Rightarrow> nat \<Rightarrow> string \<Rightarrow> outcome"
  blend_file_path :: string
  makedirs_ok :: "string \<Rightarrow> bool"
  set_order :: "nat list \<Rightarrow> nat list"

definition path_join :: "string \<Rightarrow> string \<Rightarrow> string" where
  "path_join a b =
     (if b \<noteq> [] \<and> hd b = CHR ''/'' then b
      else if a = [] \<or> last a = CHR ''/'' then a @ b
      else a @ ''/'' @ b)"

definition dirname :: "string \<Rightarrow> string" where
  "dirname p =
     (let head = rev (dropWhile (\<lambda>c. c \<noteq> CHR ''/'') (rev p))
      in if head \<noteq> [] \<and> \<not> list_all (\<lambda>c. c = CHR ''/'') head
         then rev (dropWhile (\<lambda>c. c = CHR ''/'') (rev head))
         else head)"

text \<open>The two steps \<open>if not os.path.exists(p): os.makedirs(p)\<close>.\<close>

definition ensure_folder :: "env \<Rightarrow> string \<Rightarrow> scene \<Rightarrow> error option \<times> scene" where
  "ensure_folder en p s =
     (if p \<in> set (folders s) then (None, s)
      else if makedirs_ok en p then (None, s\<lparr>folders := folders s @ [p]\<rparr>)
      else (Some FolderError, s))"

section \<open>FileManager\<close>

definition get_output_path :: "env \<Rightarrow> scene \<Rightarrow> (error + string) \<times> scene" where
  "get_output_path en s =
     (if blend_file_path en = [] then (Inl NotSaved, s)
      else
        (let blend_dir = dirname (blend_file_path en);
             output_path = path_join blend_dir ''BakedTextures''
         in case ensure_folder en output_path s of
              (Some e, s') \<Rightarrow> (Inl e, s')
            | (None, s') \<Rightarrow> (Inr output_path, s')))"

definition create_material_folder :: "env \<Rightarrow> string \<Rightarrow> string \<Rightarrow> scene \<Rightarrow> (error + string) \<times> scene" where
  "create_material_folder en material_name output_path s =
     (let material_path = path_join output_path material_name
      in case ensure_folder en material_path s of
           (Some e, s') \<Rightarrow> (Inl e, s')
         | (None, s') \<Rightarrow> (Inr material_path, s'))"

section \<open>MaterialManager: listing and cleaning up materials\<close>

definition get_all_materials :: "env \<Rightarrow> scene \<Rightarrow> nat list" where
  "get_all_materials en s =
     set_order en (remdups (concat (map (\<lambda>ob. if obj_type ob = ''MESH''
                                              then [m. Some m \<leftarrow> material_slots ob] else [])
                                        (objects s))))"

text \<open>
  \<open>material.users\<close> is read as the number of slots that reference the material, and
  the loop of \<open>cleanup_unused_materials\<close> as visiting every registered material.
\<close>

definition users :: "scene \<Rightarrow> nat \<Rightarrow> nat" where
  "users s m = length (filter (\<lambda>v. v = Some m) (concat (map material_slots (objects s))))"

definition cleanup_unused_materials :: "scene \<Rightarrow> scene" where
  "cleanup_unused_materials s = s\<lparr>data_materials := filter (\<lambda>m. users s m \<noteq> 0) (data_materials s)\<rparr>"

section \<open>TextureBaker\<close>

definition BAKE_TYPES :: "(string \<times> string) list" where
  "BAKE_TYPES = [(''DIFFUSE'', ''diffuse''), (''NORMAL'', ''normal''),
                 (''ROUGHNESS'', ''roughness''), (''AO'', ''ao''), (''EMIT'', ''metallic'')]"

text \<open>\<open>s.split(c)\<close> and \<open>c.join(parts)\<close> for a separator of one character.\<close>

fun split_on :: "char \<Rightarrow> string \<Rightarrow> string list" where
  "split_on c [] = [[]]"
| "split_on c (x # xs) =
     (if x = c then [] # split_on c xs
      else (case split_on c xs of
              [] \<Rightarrow> [[x]]
            | p # ps \<Rightarrow> (x # p) # ps))"

fun join :: "string \<Rightarrow> string list \<Rightarrow> string" where
  "join sep [] = []"
| "join sep [p] = p"
| "join sep (p # q # ps) = p @ sep @ join sep (q # ps)"

text \<open>The name of the image (lines 280 to 288).\<close>

definition map_name_of :: "string \<Rightarrow> string \<Rightarrow> string" where
  "map_name_of material_name suffix =
     (let material_parts = split_on (CHR ''_'') material_name in
      if 1 < length material_parts then
        (let base_material_name = hd material_parts;
             object_name = join ''_'' (tl material_parts)
         in base_material_name @ ''_'' @ object_name @ ''_'' @ suffix)
      else material_name @ ''_'' @ suffix)"

text \<open>\<open>_create_bake_image\<close>: an image of that name is replaced.\<close>

definition create_bake_image :: "string \<Rightarrow> scene \<Rightarrow> scene" where
  "create_bake_image name s = s\<lparr>images := filter (\<lambda>i. i \<noteq> name) (images s) @ [name]\<rparr>"

definition set_tree :: "nat \<Rightarrow> node_tree \<Rightarrow> scene \<Rightarrow> scene" where
  "set_tree m t s = s\<lparr>materials := (materials s)(m := (materials s m)\<lparr>tree := t\<rparr>)\<rparr>"

definition log_event :: "event \<Rightarrow> scene \<Rightarrow> scene" where
  "log_event e s = s\<lparr>trace := trace s @ [e]\<rparr>"

text \<open>
  The inner \<open>try\<close> of \<open>_bake_all_maps\<close> (lines 298 to 300): the bake, then the save.
  The result tells whether the block raised.
\<close>

definition bake_and_save :: "env \<Rightarrow> nat \<Rightarrow> string \<Rightarrow> string \<Rightarrow> string \<Rightarrow> scene \<Rightarrow> error option \<times> scene" where
  "bake_and_save en m bake_type output_path map_name s =
     (let s1 = log_event (Bake m (active_object s) bake_type) s in
      case bake_outcome en s m bake_type of
        BakeRaises \<Rightarrow> (Some BakeError, s1)
      | SaveRaises \<Rightarrow> (Some SaveError, s1)
      | Done \<Rightarrow> (None, log_event (Save output_path (map_name @ ''.png'')) s1))"

text \<open>
  The \<open>finally\<close> block (lines 301 to 303): \<open>if original_links:\<close> is the truth value of
  the variable, which is \<open>None\<close> or a list.
\<close>

definition restore_if_links :: "nat \<Rightarrow> (socket \<times> socket) list option \<Rightarrow> scene \<Rightarrow> error option \<times> scene" where
  "restore_if_links m original_links s =
     (case original_links of
        None \<Rightarrow> (None, s)
      | Some [] \<Rightarrow> (None, s)
      | Some (l # ls) \<Rightarrow>
          (let s1 = log_event (Restore m) s;
               (r, t) = restore_material_links (tree (materials s1 m)) (l # ls)
           in (r, set_tree m t s1)))"

text \<open>
  One turn of the loop of \<open>_bake_all_maps\<close> (lines 278 to 307), in its three steps:
  the name and the image (lines 280 to 291), the reroute for the metallic map (lines
  293 to 296), then the bake with the restore (lines 298 to 303). The result of the turn
  is False when it ends in \<open>return False\<close>, that is when anything in it raised.
\<close>

definition assign_bake_image :: "nat \<Rightarrow> nat \<Rightarrow> string \<Rightarrow> scene \<Rightarrow> string \<times> scene" where
  "assign_bake_image m bake_node suffix s =
     (let map_name = map_name_of (mat_name (materials s m)) suffix;
          s1 = create_bake_image map_name s;
          s2 = set_tree m (update_node bake_node (\<lambda>n. n\<lparr>node_image := Some map_name\<rparr>)
                             (tree (materials s1 m))) s1
      in (map_name, s2))"

definition reroute_metallic ::
  "nat \<Rightarrow> string \<times> string \<Rightarrow> scene \<Rightarrow> error option \<times> (socket \<times> socket) list option \<times> string \<times> scene" where
  "reroute_metallic m entry s =
     (if snd entry = ''metallic'' then
        (let s' = log_event (Reroute m) s;
             (r, t) = setup_metallic_nodes (tree (materials s' m))
         in case r of
              Inl e \<Rightarrow> (Some e, None, fst entry, set_tree m t s')
            | Inr snapshot \<Rightarrow> (None, Some snapshot, ''EMIT'', set_tree m t s'))
      else (None, None, fst entry, s))"

definition bake_map :: "env \<Rightarrow> nat \<Rightarrow> nat \<Rightarrow> string \<Rightarrow> string \<times> string \<Rightarrow> scene \<Rightarrow> bool \<times> scene" where
  "bake_map en m bake_node output_path entry s =
     (let (map_name, s2) = assign_bake_image m bake_node (snd entry) s;
          (r3, original_links, bake_type, s3) = reroute_metallic m entry s2
      in case r3 of
           Some e \<Rightarrow> (False, s3)
         | None \<Rightarrow>
             (let (r4, s4) = bake_and_save en m bake_type output_path map_name s3;
                  (r5, s5) = restore_if_links m original_links s4
              in (r4 = None \<and> r5 = None, s5)))"

fun bake_maps :: "env \<Rightarrow> nat \<Rightarrow> nat \<Rightarrow> string \<Rightarrow> (string \<times> string) list \<Rightarrow> scene \<Rightarrow> bool \<times> scene" where
  "bake_maps en m bake_node output_path [] s = (True, s)"
| "bake_maps en m bake_node output_path (entry # rest) s =
     (case bake_map en m bake_node output_path entry s of
        (False, s') \<Rightarrow> (False, s')
      | (True, s') \<Rightarrow> bake_maps en m bake_node output_path rest s')"

definition bake_all_maps :: "env \<Rightarrow> nat \<Rightarrow> nat \<Rightarrow> string \<Rightarrow> scene \<Rightarrow> bool \<times> scene" where
  "bake_all_maps en m bake_node output_path s = bake_maps en m bake_node output_path BAKE_TYPES s"

text \<open>
  The grouping loop of \<open>bake_material\<close> (lines 316 to 324), over the objects with their
  indices. An error of the fingerprint leaves the loop.
\<close>

fun group_objects ::
  "(uv list \<Rightarrow> int) \<Rightarrow> nat \<Rightarrow> (nat \<times> obj) list \<Rightarrow> (py_value \<times> nat list) list
     \<Rightarrow> error + (py_value \<times> nat list) list" where
  "group_objects h m [] uv_groups = Inr uv_groups"
| "group_objects h m ((oi, ob) # rest) uv_groups =
     (if obj_type ob = ''MESH'' then
        (if Some m \<in> set (material_slots ob) then
           (case get_uv_hash h ob (Some m) of
              Inl e \<Rightarrow> Inl e
            | Inr uv_hash \<Rightarrow>
                if uv_hash \<notin> set sentinels
                then group_objects h m rest (dict_append uv_hash oi uv_groups)
                else group_objects h m rest uv_groups)
         else group_objects h m rest uv_groups)
      else group_objects h m rest uv_groups)"

text \<open>The loop over the UV groups (lines 331 to 347).\<close>

fun bake_groups ::
  "env \<Rightarrow> nat \<Rightarrow> string \<Rightarrow> (py_value \<times> nat list) list \<Rightarrow> scene \<Rightarrow> bool \<times> scene" where
  "bake_groups en m material_path [] s = (True, s)"
| "bake_groups en m material_path ((uv_hash, obs) # rest) s =
     (case obs of
        [] \<Rightarrow> (False, s\<lparr>selected := []\<rparr>)
      | first # others \<Rightarrow>
          (let s1 = s\<lparr>selected := []\<rparr>;
               s2 = s1\<lparr>selected := selected s1 @ [first]\<rparr>;
               s3 = s2\<lparr>active_object := Some first\<rparr>;
               (bake_node, mat) = setup_bake_node (materials s3 m);
               s4 = s3\<lparr>materials := (materials s3)(m := mat)\<rparr>;
               (success, s5) = bake_all_maps en m (node_id bake_node) material_path s4
           in if \<not> success then (False, s5)
              else bake_groups en m material_path rest s5))"

definition bake_material :: "(uv list \<Rightarrow> int) \<Rightarrow> env \<Rightarrow> nat \<Rightarrow> string \<Rightarrow> scene \<Rightarrow> bool \<times> scene" where
  "bake_material h en m output_path s =
     (case create_material_folder en (mat_name (materials s m)) output_path s of
        (Inl e, s1) \<Rightarrow> (False, s1)
      | (Inr material_path, s1) \<Rightarrow>
          (case group_objects h m (zip [0..<length (objects s1)] (objects s1)) [] of
             Inl e \<Rightarrow> (False, s1)
           | Inr uv_groups \<Rightarrow>
               if uv_groups = [] then (False, s1)
               else bake_groups en m material_path uv_groups s1))"

text \<open>The loop of \<open>execute\<close> over the materials (lines 376 to 380).\<close>

fun bake_materials ::
  "(uv list \<Rightarrow> int) \<Rightarrow> env \<Rightarrow> string \<Rightarrow> nat list \<Rightarrow> nat \<Rightarrow> scene \<Rightarrow> nat \<times> scene" where
  "bake_materials h en output_path [] success_count s = (success_count, s)"
| "bake_materials h en output_path (m # rest) success_count s =
     (case bake_material h en m output_path s of
        (True, s') \<Rightarrow> bake_materials h en output_path rest (success_count + 1) s'
      | (False, s') \<Rightarrow> bake_materials h en output_path rest success_count s')"

text \<open>
  \<open>execute\<close> (lines 355 to 392). The result is what the run prints last: the error
  that ended it, or the count of successes, the number of materials and the output
  path. \<open>BakeSettings.setup\<close> configures the renderer and changes nothing of this
  state.
\<close>

definition execute :: "(uv list \<Rightarrow> int) \<Rightarrow> env \<Rightarrow> scene \<Rightarrow> (error + nat \<times> nat \<times> string) \<times> scene" where
  "execute h en s =
     (let s1 = duplicate_shared_materials h s in
      case get_output_path en s1 of
        (Inl e, s2) \<Rightarrow> (Inl e, s2)
      | (Inr output_path, s2) \<Rightarrow>
          (let mats = get_all_materials en s2 in
           if mats = [] then (Inl NoMaterials, s2)
           else
             (let (success_count, s3) = bake_materials h en output_path mats 0 s2;
                  s4 = cleanup_unused_materials s3
              in (Inr (success_count, length mats, output_path), s4))))"

section \<open>Notions used to state the properties\<close>

text \<open>The tree holds an image-texture node named \<open>Bake_Target\<close>.\<close>

definition has_bake_target :: "node_tree \<Rightarrow> bool" where
  "has_bake_target t = list_ex (\<lambda>n. node_name n = ''Bake_Target'' \<and> node_type n = TEX_IMAGE) (nodes t)"

text \<open>The node identities of a tree are distinct and below the next identity.\<close>

definition node_ids_ok :: "node_tree \<Rightarrow> bool" where
  "node_ids_ok t =
     (distinct (map node_id (nodes t)) \<and> list_all (\<lambda>n. node_id n < next_node t) (nodes t))"

text \<open>
  The trees on which the reroute creates only the nodes that the restore removes: a
  node named \<open>Material Output\<close> and a Principled node exist, no node is of type
  EMISSION or VALUE, the node identities are below the next one, every link joins
  sockets of nodes of the tree, and no input socket holds two links.
\<close>

definition reroute_ready :: "node_tree \<Rightarrow> bool" where
  "reroute_ready t =
     (nodes_get t ''Material Output'' \<noteq> None \<and>
      list_ex (\<lambda>n. node_type n = BSDF_PRINCIPLED) (nodes t) \<and>
      list_all (\<lambda>n. node_type n \<noteq> EMISSION \<and> node_type n \<noteq> VALUE) (nodes t) \<and>
      list_all (\<lambda>n. node_id n < next_node t) (nodes t) \<and>
      list_all (\<lambda>l. socket_node (fst l) \<in> node_id ` set (nodes t) \<and>
                     socket_node (snd l) \<in> node_id ` set (nodes t)) (links t) \<and>
      distinct (map snd (links t)))"

text \<open>The calls of the renderer in a trace: for a material, and as (active object, type).\<close>

definition baked :: "nat \<Rightarrow> event list \<Rightarrow> bool" where
  "baked m tr = list_ex (\<lambda>e. case e of Bake m' a ty \<Rightarrow> m' = m | _ \<Rightarrow> False) tr"

definition bake_calls :: "event list \<Rightarrow> (nat option \<times> string) list" where
  "bake_calls tr = concat (map (\<lambda>e. case e of Bake m a ty \<Rightarrow> [(a, ty)] | _ \<Rightarrow> []) tr)"

definition saved_files :: "event list \<Rightarrow> (string \<times> string) list" where
  "saved_files tr = concat (map (\<lambda>e. case e of Save d f \<Rightarrow> [(d, f)] | _ \<Rightarrow> []) tr)"

definition count_event :: "event \<Rightarrow> event list \<Rightarrow> nat" where
  "count_event e tr = length (filter (\<lambda>x. x = e) tr)"

text \<open>
  The bake type a turn of the loop passes to the renderer, and the calls a material
  with the given UV groups makes when nothing fails: for each group in turn, one call
  per entry of \<open>BAKE_TYPES\<close>, with the first object of the group active.
\<close>

definition effective_type :: "string \<times> string \<Rightarrow> string" where
  "effective_type entry = (if snd entry = ''metallic'' then ''EMIT'' else fst entry)"

definition bake_schedule :: "(py_value \<times> nat list) list \<Rightarrow> (nat option \<times> string) list" where
  "bake_schedule uv_groups =
     concat (map (\<lambda>g. map (\<lambda>entry. (Some (hd (snd g)), effective_type entry)) BAKE_TYPES) uv_groups)"

section \<open>Example scenes\<close>

text \<open>
  A quad of two triangles; the second object lists the two triangles in the other
  order. The hash of the examples is the sum of the numerators of the coordinates in
  ten-thousandths, which tells the example layouts apart.
\<close>

definition quad :: obj where
  "quad = \<lparr>obj_name = ''A'', obj_type = ''MESH'', material_slots = [Some 0],
     uv_layers = [[(0, 0), (1, 0), (1, 1), (0, 0), (1, 1), (0, 1)]], uv_active = 0,
     polygons = [\<lparr>material_index = 0, loop_indices = [0, 1, 2]\<rparr>,
                 \<lparr>material_index = 0, loop_indices = [3, 4, 5]\<rparr>]\<rparr>"


text \<open>
  Two meshes named A and B. \<open>mesh_B\<close> has the UV layout of \<open>mesh_A\<close>;
  \<open>mesh_B_other\<close> has another layout; \<open>mesh_flat\<close> has no UV layer.
\<close>

definition mesh_A :: obj where
  "mesh_A = quad"

definition mesh_B :: obj where
  "mesh_B = quad\<lparr>obj_name := ''B''\<rparr>"

definition mesh_B_other :: obj where
  "mesh_B_other = \<lparr>obj_name = ''B'', obj_type = ''MESH'', material_slots = [Some 0],
     uv_layers = [[(0, 0), (1, 0), (0, 1)]], uv_active = 0,
     polygons = [\<lparr>material_index = 0, loop_indices = [0, 1, 2]\<rparr>]\<rparr>"

definition mesh_flat :: obj where
  "mesh_flat = \<lparr>obj_name = ''C'', obj_type = ''MESH'', material_slots = [Some 0],
     uv_layers = [], uv_active = 0,
     polygons = [\<lparr>material_index = 0, loop_indices = [0, 1, 2]\<rparr>]\<rparr>"

text \<open>
  Three trees: a Principled node linked to the output node; the same two nodes with no
  link; an output node alone.
\<close>

definition principled_node :: node where
  "principled_node = \<lparr>node_id = 0, node_name = ''Principled BSDF'', node_type = BSDF_PRINCIPLED,
     node_select = False, node_image = None, node_value = 0\<rparr>"

definition output_node :: node where
  "output_node = \<lparr>node_id = 1, node_name = ''Material Output'', node_type = OUTPUT_MATERIAL,
     node_select = False, node_image = None, node_value = 0\<rparr>"

definition linked_tree :: node_tree where
  "linked_tree = \<lparr>nodes = [principled_node, output_node],
     links = [(Outp 0 0, Inp 1 ''Surface'')], active_node = None, next_node = 2\<rparr>"

definition unlinked_tree :: node_tree where
  "unlinked_tree = \<lparr>nodes = [principled_node, output_node], links = [],
     active_node = None, next_node = 2\<rparr>"

definition bare_tree :: node_tree where
  "bare_tree = \<lparr>nodes = [output_node], links = [], active_node = None, next_node = 2\<rparr>"

text \<open>
  Scenes with one material named M, used by the listed objects, and a renderer that
  never fails, or that fails on the bake of type NORMAL.
\<close>

definition scene_of :: "obj list \<Rightarrow> node_tree \<Rightarrow> scene" where
  "scene_of obs t = \<lparr>objects = obs,
     materials = (\<lambda>i. \<lparr>mat_name = ''M'', use_nodes = True, tree = t\<rparr>),
     data_materials = [0], next_material = 1, images = [], selected = [],
     active_object = None, folders = [], trace = []\<rparr>"

definition good_env :: env where
  "good_env = \<lparr>bake_outcome = (\<lambda>s m ty. Done), blend_file_path = ''/p/scene.blend'',
     makedirs_ok = (\<lambda>p. True), set_order = (\<lambda>ms. ms)\<rparr>"

definition failing_env :: env where
  "failing_env = \<lparr>bake_outcome = (\<lambda>s m ty. if ty = ''NORMAL'' then BakeRaises else Done),
     blend_file_path = ''/p/scene.blend'', makedirs_ok = (\<lambda>p. True), set_order = (\<lambda>ms. ms)\<rparr>"

section \<open>Properties of the fingerprint\<close>

lemma loop_uvs_polygons_update [simp]:
  "loop_uvs (ob\<lparr>polygons := qs\<rparr>) ixs = loop_uvs ob ixs"
  by (induction ixs) (simp_all add: active_data_def)

lemma collect_uv_coords_polygons_update [simp]:
  "collect_uv_coords (ob\<lparr>polygons := qs\<rparr>) m ps = collect_uv_coords ob m ps"
  by (induction ps) (auto simp: slot_at_def split: sum.splits)

lemma loop_uvs_no_slot_error: "loop_uvs ob ixs \<noteq> Inl SlotIndexError"
  by (induction ixs) (auto simp: active_data_def split: sum.splits)

lemma collect_uv_coords_no_slot_error: "collect_uv_coords ob m ps \<noteq> Inl SlotIndexError"
  by (induction ps) (auto simp: slot_at_def loop_uvs_no_slot_error split: sum.splits)

lemma collect_uv_coords_filter:
  "collect_uv_coords ob m (filter (\<lambda>p. material_index p < length (material_slots ob)) ps)
     = collect_uv_coords ob m ps"
  by (induction ps) (auto simp: slot_at_def split: sum.splits)









lemma py_round4_int [simp]: "py_round4 0 = 0" "py_round4 1 = 1"
  by (simp_all add: py_round4_def round_half_even_def)




text \<open>
  Claim C9. A polygon whose material index is not below the number of slots is
  skipped: the fingerprint never ends in an out-of-range slot access, and it is the
  fingerprint of the object without those polygons.
\<close>

theorem get_uv_hash_skips_bad_material_index:
  "get_uv_hash h ob m \<noteq> Inl SlotIndexError \<and>
   get_uv_hash h (ob\<lparr>polygons := filter (\<lambda>p. material_index p < length (material_slots ob)) (polygons ob)\<rparr>) m
     = get_uv_hash h ob m"
  by (auto simp: get_uv_hash_def collect_uv_coords_filter collect_uv_coords_no_slot_error split: sum.splits)

lemma collect_uv_coords_empty:
  "\<forall>p \<in> set ps. material_index p < length (material_slots ob) \<and>
       material_slots ob ! material_index p = m \<longrightarrow> loop_indices p = [] \<Longrightarrow>
   collect_uv_coords ob m ps = Inr []"
  by (induction ps) (auto simp: slot_at_def)


section \<open>The resolver\<close>

subsection \<open>dict\<close>

lemma dict_append_map_fst:
  "map fst (map (\<lambda>(k', vs). if k' = k then (k', vs @ [v]) else (k', vs)) d) = map fst d"
  by (induction d) auto

lemma dict_append_distinct: "distinct (map fst d) \<Longrightarrow> distinct (map fst (dict_append k v d))"
  unfolding dict_append_def by (simp only: dict_append_map_fst split: if_splits) auto

lemma dict_append_entry:
  assumes "(k', vs') \<in> set (dict_append k v d)"
  shows "(k', vs') \<in> set d \<and> k' \<noteq> k \<or>
     k' = k \<and> (\<exists>vs. (k, vs) \<in> set d \<and> vs' = vs @ [v]) \<or>
     k' = k \<and> k \<notin> fst ` set d \<and> vs' = [v]"
proof (cases "k \<in> fst ` set d")
  case True
  with assms obtain a b where ab: "(a, b) \<in> set d"
    and eq: "(k', vs') = (if a = k then (a, b @ [v]) else (a, b))"
    by (auto simp: dict_append_def)
  show ?thesis
  proof (cases "a = k")
    case True
    with ab eq show ?thesis by auto
  next
    case False
    with ab eq show ?thesis by auto
  qed
next
  case False
  with assms have "(k', vs') \<in> set d \<or> (k', vs') = (k, [v])"
    by (auto simp: dict_append_def)
  with False show ?thesis by force
qed

lemma dict_append_new: "\<exists>vs. (k, vs) \<in> set (dict_append k v d) \<and> v \<in> set vs"
proof (cases "k \<in> fst ` set d")
  case True
  then obtain b where "(k, b) \<in> set d" by auto
  then have "(k, b @ [v]) \<in> set (dict_append k v d)"
    using True by (force simp: dict_append_def)
  then show ?thesis by (intro exI [of _ "b @ [v]"]) simp
next
  case False
  then show ?thesis by (intro exI [of _ "[v]"]) (simp add: dict_append_def)
qed

lemma dict_append_keeps:
  assumes "(k', vs) \<in> set d" "x \<in> set vs"
  shows "\<exists>vs'. (k', vs') \<in> set (dict_append k v d) \<and> x \<in> set vs'"
proof (cases "k \<in> fst ` set d")
  case True
  show ?thesis
  proof (cases "k' = k")
    case True
    with assms \<open>k \<in> fst ` set d\<close> have "(k', vs @ [v]) \<in> set (dict_append k v d)"
      by (force simp: dict_append_def)
    with assms show ?thesis by (intro exI [of _ "vs @ [v]"]) simp
  next
    case False
    with assms \<open>k \<in> fst ` set d\<close> have "(k', vs) \<in> set (dict_append k v d)"
      by (force simp: dict_append_def)
    with assms show ?thesis by blast
  qed
next
  case False
  with assms have "(k', vs) \<in> set (dict_append k v d)"
    by (simp add: dict_append_def)
  with assms show ?thesis by blast
qed


subsection \<open>pass 1\<close>

lemma usage_sites_iff:
  "u \<in> set (usage_sites obs) \<longleftrightarrow>
     fst u < length obs \<and> obj_type (obs ! fst u) = ''MESH'' \<and>
     snd u < length (material_slots (obs ! fst u))"
  by (cases u) (auto simp: usage_sites_def intro!: bexI [of _ "fst u"])

lemma record_usage_ok:
  assumes "\<forall>e \<in> set d. \<forall>u \<in> set (snd e).
             material_slots (obs ! fst u) ! snd u = Some (fst (fst e)) \<and>
             get_uv_hash h (obs ! fst u) (Some (fst (fst e))) = Inr (snd (fst e))"
  shows "\<forall>e \<in> set (record_usage h obs v d). \<forall>u \<in> set (snd e).
             material_slots (obs ! fst u) ! snd u = Some (fst (fst e)) \<and>
             get_uv_hash h (obs ! fst u) (Some (fst (fst e))) = Inr (snd (fst e))"
proof (cases "material_slots (obs ! fst v) ! snd v")
  case None
  with assms show ?thesis by (simp add: record_usage_def)
next
  case (Some m)
  show ?thesis
  proof (cases "get_uv_hash h (obs ! fst v) (Some m)")
    case (Inl e)
    with Some assms show ?thesis by (simp add: record_usage_def)
  next
    case (Inr fp)
    have eq: "record_usage h obs v d = dict_append (m, fp) v d"
      using Some Inr by (simp add: record_usage_def)
    show ?thesis
    proof (intro ballI)
      fix e u assume e: "e \<in> set (record_usage h obs v d)" and u: "u \<in> set (snd e)"
      obtain k vs where kv: "e = (k, vs)" by (cases e)
      from e kv eq have "(k, vs) \<in> set (dict_append (m, fp) v d)" by simp
      from dict_append_entry [OF this] u kv assms Some Inr
      show "material_slots (obs ! fst u) ! snd u = Some (fst (fst e)) \<and>
             get_uv_hash h (obs ! fst u) (Some (fst (fst e))) = Inr (snd (fst e))"
        by (elim disjE conjE exE) (force, force, force)
    qed
  qed
qed

lemma fold_record_usage_ok:
  assumes "\<forall>e \<in> set d. \<forall>u \<in> set (snd e).
             material_slots (obs ! fst u) ! snd u = Some (fst (fst e)) \<and>
             get_uv_hash h (obs ! fst u) (Some (fst (fst e))) = Inr (snd (fst e))"
  shows "\<forall>e \<in> set (fold (record_usage h obs) vs d). \<forall>u \<in> set (snd e).
             material_slots (obs ! fst u) ! snd u = Some (fst (fst e)) \<and>
             get_uv_hash h (obs ! fst u) (Some (fst (fst e))) = Inr (snd (fst e))"
  using assms
proof (induction vs arbitrary: d)
  case Nil
  then show ?case by simp
next
  case (Cons v vs)
  from Cons.IH [OF record_usage_ok [OF Cons.prems]] show ?case by simp
qed

lemma material_usage_ok:
  "e \<in> set (material_usage h obs) \<Longrightarrow> u \<in> set (snd e) \<Longrightarrow>
     material_slots (obs ! fst u) ! snd u = Some (fst (fst e)) \<and>
     get_uv_hash h (obs ! fst u) (Some (fst (fst e))) = Inr (snd (fst e))"
  using fold_record_usage_ok [of "[]" obs h "usage_sites obs"]
  by (simp add: material_usage_def)

lemma record_usage_distinct:
  "distinct (map fst d) \<Longrightarrow> distinct (map fst (record_usage h obs v d))"
  by (auto simp: record_usage_def dict_append_distinct split: option.splits sum.splits)

lemma fold_record_usage_distinct:
  "distinct (map fst d) \<Longrightarrow> distinct (map fst (fold (record_usage h obs) vs d))"
  by (induction vs arbitrary: d) (simp_all add: record_usage_distinct)

lemma material_usage_distinct: "distinct (map fst (material_usage h obs))"
  by (simp add: material_usage_def fold_record_usage_distinct)

lemma record_usage_keeps:
  "(k, us) \<in> set d \<Longrightarrow> x \<in> set us \<Longrightarrow>
     \<exists>us'. (k, us') \<in> set (record_usage h obs v d) \<and> x \<in> set us'"
  by (auto simp: record_usage_def dict_append_keeps split: option.splits sum.splits)

lemma fold_record_usage_keeps:
  "(k, us) \<in> set d \<Longrightarrow> x \<in> set us \<Longrightarrow>
     \<exists>us'. (k, us') \<in> set (fold (record_usage h obs) vs d) \<and> x \<in> set us'"
proof (induction vs arbitrary: d us)
  case Nil
  then show ?case by auto
next
  case (Cons v vs)
  from record_usage_keeps [OF Cons.prems, of h obs v]
  obtain us' where "(k, us') \<in> set (record_usage h obs v d)" "x \<in> set us'" by blast
  from Cons.IH [OF this] show ?case by simp
qed

lemma fold_record_usage_records:
  assumes "x \<in> set vs" "material_slots (obs ! fst x) ! snd x = Some m"
    "get_uv_hash h (obs ! fst x) (Some m) = Inr fp"
  shows "\<exists>us. ((m, fp), us) \<in> set (fold (record_usage h obs) vs d) \<and> x \<in> set us"
  using assms(1)
proof (induction vs arbitrary: d)
  case Nil
  then show ?case by simp
next
  case (Cons v vs)
  show ?case
  proof (cases "x = v")
    case True
    then have "record_usage h obs v d = dict_append (m, fp) x d"
      using assms by (simp add: record_usage_def)
    with dict_append_new [of "(m, fp)" x d]
    obtain us where "((m, fp), us) \<in> set (record_usage h obs v d)" "x \<in> set us" by auto
    from fold_record_usage_keeps [OF this] show ?thesis by simp
  next
    case False
    with Cons.prems have "x \<in> set vs" by simp
    from Cons.IH [OF this] show ?thesis by simp
  qed
qed

lemma material_usage_records:
  assumes "fst u < length obs" "obj_type (obs ! fst u) = ''MESH''"
    "snd u < length (material_slots (obs ! fst u))"
    "material_slots (obs ! fst u) ! snd u = Some m"
    "get_uv_hash h (obs ! fst u) (Some m) = Inr fp"
  shows "\<exists>us. ((m, fp), us) \<in> set (material_usage h obs) \<and> u \<in> set us"
  unfolding material_usage_def
  by (rule fold_record_usage_records) (use assms in \<open>simp_all add: usage_sites_iff\<close>)

subsection \<open>pass 2\<close>

lemma other_users_id:
  "\<forall>u \<in> set us. get_uv_hash h (objects s ! fst u) (material_slots (objects s ! fst u) ! snd u) = Inr fp
     \<Longrightarrow> other_users h m fp us s = s"
  by (induction us) (simp_all add: Let_def)

lemma set_material_name_objects [simp]: "objects (set_material_name m n s) = objects s"
  by (simp add: set_material_name_def)

lemma process_group_eq:
  assumes "\<forall>u \<in> set (snd e). material_slots (objects s ! fst u) ! snd u = Some (fst (fst e)) \<and>
             get_uv_hash h (objects s ! fst u) (Some (fst (fst e))) = Inr (snd (fst e))"
  shows "process_group h e s =
     (if 1 < length (snd e) \<and> snd (fst e) \<notin> set sentinels
      then set_material_name (fst (fst e))
             (mat_name (materials s (fst (fst e))) @ ''_MASTER_'' @
                obj_name (objects s ! fst (hd (snd e)))) s
      else s)"
proof (cases "1 < length (snd e) \<and> snd (fst e) \<notin> set sentinels")
  case True
  then have "set (tl (snd e)) \<subseteq> set (snd e)"
    by (cases "snd e") auto
  with assms have "\<forall>u \<in> set (tl (snd e)).
      get_uv_hash h (objects s ! fst u) (material_slots (objects s ! fst u) ! snd u) = Inr (snd (fst e))"
    by (metis subsetD)
  then have "\<And>s'. objects s' = objects s \<Longrightarrow>
      other_users h (fst (fst e)) (snd (fst e)) (tl (snd e)) s' = s'"
    by (intro other_users_id) simp
  with True show ?thesis
    by (simp add: process_group_def Let_def)
next
  case False
  then show ?thesis by (auto simp: process_group_def Let_def)
qed


lemma fold_process_group:
  assumes "\<forall>e \<in> set ds. \<forall>u \<in> set (snd e).
             material_slots (objects s ! fst u) ! snd u = Some (fst (fst e)) \<and>
             get_uv_hash h (objects s ! fst u) (Some (fst (fst e))) = Inr (snd (fst e))"
  shows "fold (process_group h) ds s =
     s\<lparr>materials := \<lambda>i. (materials s i)\<lparr>mat_name := mat_name (materials s i) @
          concat (map (\<lambda>e. ''_MASTER_'' @ obj_name (objects s ! fst (hd (snd e))))
            (filter (\<lambda>e. fst (fst e) = i \<and> 1 < length (snd e) \<and> snd (fst e) \<notin> set sentinels) ds))\<rparr>\<rparr>"
  using assms
proof (induction ds arbitrary: s)
  case Nil
  then show ?case by simp
next
  case (Cons e ds)
  let ?s1 = "process_group h e s"
  have e: "\<forall>u \<in> set (snd e). material_slots (objects s ! fst u) ! snd u = Some (fst (fst e)) \<and>
             get_uv_hash h (objects s ! fst u) (Some (fst (fst e))) = Inr (snd (fst e))"
    using Cons.prems by simp
  note s1 = process_group_eq [OF e]
  have obs: "objects ?s1 = objects s"
    by (simp add: s1)
  have "\<forall>e \<in> set ds. \<forall>u \<in> set (snd e).
             material_slots (objects ?s1 ! fst u) ! snd u = Some (fst (fst e)) \<and>
             get_uv_hash h (objects ?s1 ! fst u) (Some (fst (fst e))) = Inr (snd (fst e))"
    using Cons.prems by (simp add: obs)
  from Cons.IH [OF this] show ?case
    by (simp add: obs) (auto simp: s1 set_material_name_def fun_eq_iff)
qed

lemma duplicate_shared_materials_eq:
  "duplicate_shared_materials h s =
     s\<lparr>materials := \<lambda>i. (materials s i)\<lparr>mat_name := mat_name (materials s i) @
          concat (map (\<lambda>e. ''_MASTER_'' @ obj_name (objects s ! fst (hd (snd e))))
            (filter (\<lambda>e. fst (fst e) = i \<and> 1 < length (snd e) \<and> snd (fst e) \<notin> set sentinels)
               (material_usage h (objects s))))\<rparr>\<rparr>"
  unfolding duplicate_shared_materials_def
  by (rule fold_process_group) (use material_usage_ok in blast)

lemma duplicate_shared_materials_objects:
  "objects (duplicate_shared_materials h s) = objects s"
  by (subst duplicate_shared_materials_eq) simp


section \<open>Shading graphs\<close>

subsection \<open>node identities\<close>

lemma nodes_new_ids_ok: "node_ids_ok t \<Longrightarrow> node_ids_ok (snd (nodes_new t k))"
  by (auto simp: node_ids_ok_def nodes_new_def Let_def list_all_iff less_Suc_eq)

lemma nodes_remove_ids_ok: "node_ids_ok t \<Longrightarrow> node_ids_ok (nodes_remove t i)"
  by (auto simp: node_ids_ok_def nodes_remove_def list_all_iff distinct_map_filter)

lemma update_node_ids_ok:
  assumes f: "\<And>n. node_id (f n) = node_id n" and ok: "node_ids_ok t"
  shows "node_ids_ok (update_node i f t)"
proof -
  have "(node_id \<circ> (\<lambda>n. if node_id n = i then f n else n)) = node_id"
    by (auto simp: fun_eq_iff f)
  with ok show ?thesis
    by (auto simp: node_ids_ok_def update_node_def list_all_iff f)
qed

lemma links_new_ids_ok: "links_new t f s = Inr t' \<Longrightarrow> node_ids_ok t \<Longrightarrow> node_ids_ok t'"
  by (auto simp: links_new_def node_ids_ok_def split: if_splits)

lemma links_new_nodes: "links_new t f s = Inr t' \<Longrightarrow> nodes t' = nodes t \<and> next_node t' = next_node t"
  by (auto simp: links_new_def split: if_splits)

lemma remove_nodes_ids_ok: "node_ids_ok t \<Longrightarrow> node_ids_ok (remove_nodes t ns)"
  by (induction ns arbitrary: t) (auto simp: nodes_remove_ids_ok)

lemma relink_nodes: "nodes (snd (relink t ls)) = nodes t \<and> next_node (snd (relink t ls)) = next_node t"
  by (induction ls arbitrary: t) (auto split: sum.splits dest: links_new_nodes)

lemma relink_ids_ok: "node_ids_ok t \<Longrightarrow> node_ids_ok (snd (relink t ls))"
  using relink_nodes [of t ls] by (simp add: node_ids_ok_def)

lemma restore_material_links_ids_ok:
  "node_ids_ok t \<Longrightarrow> node_ids_ok (snd (restore_material_links t ls))"
  by (simp add: restore_material_links_def relink_ids_ok remove_nodes_ids_ok)


lemma setup_metallic_nodes_preserves:
  assumes t: "P t"
    and new: "\<And>t k n t'. P t \<Longrightarrow> nodes_new t k = (n, t') \<Longrightarrow> P t'"
    and link: "\<And>t f s t'. P t \<Longrightarrow> links_new t f s = Inr t' \<Longrightarrow> P t'"
    and upd: "\<And>t i v. P t \<Longrightarrow> P (update_node i (\<lambda>n. n\<lparr>node_value := v\<rparr>) t)"
  shows "P (snd (setup_metallic_nodes t))"
proof -
  obtain emit t1 where 1: "nodes_new t EMISSION = (emit, t1)" by force
  then have p1: "P t1" using t new by blast
  obtain out t2 where 2: "(case nodes_get t1 ''Material Output'' of
                            Some n \<Rightarrow> (n, t1)
                          | None \<Rightarrow> nodes_new t1 OUTPUT_MATERIAL) = (out, t2)" by force
  then have p2: "P t2" using p1 new by (auto split: option.splits)
  obtain pr t3 where 3: "(case find (\<lambda>n. node_type n = BSDF_PRINCIPLED) (nodes t2) of
                                Some n \<Rightarrow> (n, t2)
                              | None \<Rightarrow> nodes_new t2 BSDF_PRINCIPLED) = (pr, t3)" by force
  then have p3: "P t3" using p2 new by (auto split: option.splits)
  obtain r4 t4 where 4: "(case find (\<lambda>(f, s). s = Inp (node_id pr) ''Metallic'') (links t3) of
               Some (f, s) \<Rightarrow>
                 (case links_new t3 f (Inp (node_id emit) ''Strength'') of
                    Inl e \<Rightarrow> (Some e, t3)
                  | Inr t' \<Rightarrow> (None, t'))
             | None \<Rightarrow>
                 (let (val, tv) = nodes_new t3 VALUE;
                      tv' = update_node (node_id val)
                              (\<lambda>n. n\<lparr>node_value := node_value pr\<rparr>) tv
                  in case links_new tv' (Outp (node_id val) 0) (Inp (node_id emit) ''Strength'') of
                       Inl e \<Rightarrow> (Some e, tv')
                     | Inr t' \<Rightarrow> (None, t'))) = (r4, t4)" by force
  have p4: "P t4"
  proof (cases "find (\<lambda>(f, s). s = Inp (node_id pr) ''Metallic'') (links t3)")
    case None
    obtain val tv where v: "nodes_new t3 VALUE = (val, tv)" by force
    then have "P tv" using p3 new by blast
    then have "P (update_node (node_id val) (\<lambda>n. n\<lparr>node_value := node_value pr\<rparr>) tv)"
      by (rule upd)
    with 4 None v show ?thesis
      by (auto simp: Let_def split: sum.splits dest: link)
  next
    case (Some l)
    with 4 p3 show ?thesis
      by (auto split: sum.splits prod.splits dest: link)
  qed
  have "snd (setup_metallic_nodes t) = t4 \<or>
        (\<exists>t5. links_new t4 (Outp (node_id emit) 0) (Inp (node_id out) ''Surface'') = Inr t5 \<and>
              snd (setup_metallic_nodes t) = t5)"
    unfolding setup_metallic_nodes_def
    by (simp add: 1 2 3 4 Let_def split: option.splits sum.splits)
  with p4 link show ?thesis by auto
qed

lemma setup_metallic_nodes_ids_ok:
  "node_ids_ok t \<Longrightarrow> node_ids_ok (snd (setup_metallic_nodes t))"
proof (rule setup_metallic_nodes_preserves)
  show "\<And>t k n t'. node_ids_ok t \<Longrightarrow> nodes_new t k = (n, t') \<Longrightarrow> node_ids_ok t'"
    using nodes_new_ids_ok by (metis snd_conv)
qed (auto intro: links_new_ids_ok update_node_ids_ok)


subsection \<open>removal\<close>

lemma remove_nodes_nodes:
  "nodes (remove_nodes t ns) =
     filter (\<lambda>n. node_id n \<notin> node_id ` {x \<in> set ns. node_type x = EMISSION \<or> node_type x = VALUE})
       (nodes t)"
proof (induction ns arbitrary: t)
  case Nil
  then show ?case by simp
next
  case (Cons n ns)
  show ?case
  proof (cases "node_type n = EMISSION \<or> node_type n = VALUE")
    case True
    then have "nodes (remove_nodes t (n # ns)) = nodes (remove_nodes (nodes_remove t (node_id n)) ns)"
      by auto
    also have "\<dots> = filter (\<lambda>x. node_id x \<notin> node_id ` {x \<in> set ns. node_type x = EMISSION \<or> node_type x = VALUE})
        (filter (\<lambda>x. node_id x \<noteq> node_id n) (nodes t))"
      by (simp add: Cons.IH nodes_remove_def)
    also have "\<dots> = filter (\<lambda>x. node_id x \<notin> node_id ` {x \<in> set (n # ns). node_type x = EMISSION \<or> node_type x = VALUE})
        (nodes t)"
      using True by (auto intro!: filter_cong)
    finally show ?thesis .
  next
    case False
    then have "nodes (remove_nodes t (n # ns)) = nodes (remove_nodes t ns)"
      by auto
    also have "\<dots> = filter (\<lambda>x. node_id x \<notin> node_id ` {x \<in> set (n # ns). node_type x = EMISSION \<or> node_type x = VALUE})
        (nodes t)"
      using False by (auto simp: Cons.IH intro!: filter_cong)
    finally show ?thesis .
  qed
qed

lemma remove_nodes_links:
  "links (remove_nodes t ns) =
     filter (\<lambda>l. socket_node (fst l) \<notin> node_id ` {x \<in> set ns. node_type x = EMISSION \<or> node_type x = VALUE} \<and>
                 socket_node (snd l) \<notin> node_id ` {x \<in> set ns. node_type x = EMISSION \<or> node_type x = VALUE})
       (links t)"
proof (induction ns arbitrary: t)
  case Nil
  then show ?case by simp
next
  case (Cons n ns)
  show ?case
  proof (cases "node_type n = EMISSION \<or> node_type n = VALUE")
    case True
    then have "links (remove_nodes t (n # ns)) = links (remove_nodes (nodes_remove t (node_id n)) ns)"
      by auto
    also have "\<dots> = filter (\<lambda>l. socket_node (fst l) \<notin> node_id ` {x \<in> set ns. node_type x = EMISSION \<or> node_type x = VALUE} \<and>
                 socket_node (snd l) \<notin> node_id ` {x \<in> set ns. node_type x = EMISSION \<or> node_type x = VALUE})
        (filter (\<lambda>l. socket_node (fst l) \<noteq> node_id n \<and> socket_node (snd l) \<noteq> node_id n) (links t))"
      by (simp add: Cons.IH nodes_remove_def case_prod_beta)
    also have "\<dots> = filter (\<lambda>l. socket_node (fst l) \<notin> node_id ` {x \<in> set (n # ns). node_type x = EMISSION \<or> node_type x = VALUE} \<and>
                 socket_node (snd l) \<notin> node_id ` {x \<in> set (n # ns). node_type x = EMISSION \<or> node_type x = VALUE})
        (links t)"
      using True by (auto intro!: filter_cong)
    finally show ?thesis .
  next
    case False
    then have "links (remove_nodes t (n # ns)) = links (remove_nodes t ns)"
      by auto
    also have "\<dots> = filter (\<lambda>l. socket_node (fst l) \<notin> node_id ` {x \<in> set (n # ns). node_type x = EMISSION \<or> node_type x = VALUE} \<and>
                 socket_node (snd l) \<notin> node_id ` {x \<in> set (n # ns). node_type x = EMISSION \<or> node_type x = VALUE})
        (links t)"
      using False by (auto simp: Cons.IH intro!: filter_cong)
    finally show ?thesis .
  qed
qed

lemma remove_nodes_next_node: "next_node (remove_nodes t ns) = next_node t"
  by (induction ns arbitrary: t) (auto simp: nodes_remove_def)

lemma remove_nodes_self:
  assumes "distinct (map node_id (nodes t))"
  shows "nodes (remove_nodes t (nodes t)) =
         filter (\<lambda>n. node_type n \<noteq> EMISSION \<and> node_type n \<noteq> VALUE) (nodes t)"
proof -
  have inj: "inj_on node_id (set (nodes t))"
    using assms by (simp add: distinct_map)
  have "\<And>n. n \<in> set (nodes t) \<Longrightarrow>
      node_id n \<notin> node_id ` {x \<in> set (nodes t). node_type x = EMISSION \<or> node_type x = VALUE}
        \<longleftrightarrow> node_type n \<noteq> EMISSION \<and> node_type n \<noteq> VALUE"
    using inj by (auto dest: inj_onD)
  then show ?thesis
    by (subst remove_nodes_nodes) (auto intro: filter_cong)
qed

lemma restore_material_links_nodes:
  "distinct (map node_id (nodes t)) \<Longrightarrow>
     nodes (snd (restore_material_links t snap)) =
       filter (\<lambda>n. node_type n \<noteq> EMISSION \<and> node_type n \<noteq> VALUE) (nodes t)"
  by (simp add: restore_material_links_def relink_nodes remove_nodes_self)

subsection \<open>the bake node\<close>

lemma restore_material_links_bake_target:
  "node_ids_ok t \<Longrightarrow> has_bake_target t \<Longrightarrow> has_bake_target (snd (restore_material_links t snap))"
  by (auto simp: has_bake_target_def list_ex_iff restore_material_links_nodes node_ids_ok_def)

lemma update_node_bake_target:
  assumes "\<And>n. node_name (f n) = node_name n" "\<And>n. node_type (f n) = node_type n"
    and "has_bake_target t"
  shows "has_bake_target (update_node i f t)"
proof -
  from assms(3) obtain n where n: "n \<in> set (nodes t)" "node_name n = ''Bake_Target''"
    "node_type n = TEX_IMAGE"
    by (auto simp: has_bake_target_def list_ex_iff)
  let ?n' = "if node_id n = i then f n else n"
  have "?n' \<in> set (nodes (update_node i f t))"
    using n(1) by (auto simp: update_node_def)
  moreover have "node_name ?n' = ''Bake_Target''" "node_type ?n' = TEX_IMAGE"
    using n assms(1,2) by auto
  ultimately show ?thesis
    unfolding has_bake_target_def list_ex_iff by blast
qed

lemma nodes_new_bake_target:
  "has_bake_target t \<Longrightarrow> nodes_new t k = (n, t') \<Longrightarrow> has_bake_target t'"
  by (auto simp: has_bake_target_def list_ex_iff nodes_new_def Let_def)

lemma links_new_bake_target:
  "has_bake_target t \<Longrightarrow> links_new t f s = Inr t' \<Longrightarrow> has_bake_target t'"
  by (auto simp: has_bake_target_def dest: links_new_nodes)

lemma setup_metallic_nodes_bake_target:
  "has_bake_target t \<Longrightarrow> has_bake_target (snd (setup_metallic_nodes t))"
  by (rule setup_metallic_nodes_preserves)
    (auto intro: nodes_new_bake_target links_new_bake_target update_node_bake_target)

lemma setup_bake_node_tree:
  "tree (snd (setup_bake_node mat)) =
     (let t1 = (case nodes_get (tree mat) ''Bake_Target'' of
                  Some existing \<Rightarrow> nodes_remove (tree mat) (node_id existing)
                | None \<Rightarrow> tree mat);
          t2 = snd (nodes_new t1 TEX_IMAGE);
          i = next_node t1
      in (update_node i (\<lambda>n. n\<lparr>node_select := True\<rparr>)
           (update_node i (\<lambda>n. n\<lparr>node_name := ''Bake_Target''\<rparr>) t2))\<lparr>active_node := Some i\<rparr>)"
  by (simp add: setup_bake_node_def Let_def nodes_new_def split: option.splits)

lemma setup_bake_node_bake_target: "has_bake_target (tree (snd (setup_bake_node mat)))"
  by (auto simp: setup_bake_node_tree Let_def has_bake_target_def list_ex_iff nodes_new_def
      update_node_def split: option.splits)

lemma setup_bake_node_ids_ok:
  assumes ok: "node_ids_ok (tree mat)"
  shows "node_ids_ok (tree (snd (setup_bake_node mat)))"
proof -
  define t1 where "t1 = (case nodes_get (tree mat) ''Bake_Target'' of
                  Some existing \<Rightarrow> nodes_remove (tree mat) (node_id existing)
                | None \<Rightarrow> tree mat)"
  have "node_ids_ok t1"
    using ok by (auto simp: t1_def nodes_remove_ids_ok split: option.splits)
  then have "node_ids_ok (snd (nodes_new t1 TEX_IMAGE))"
    by (rule nodes_new_ids_ok)
  then have "node_ids_ok (update_node (next_node t1) (\<lambda>n. n\<lparr>node_select := True\<rparr>)
       (update_node (next_node t1) (\<lambda>n. n\<lparr>node_name := ''Bake_Target''\<rparr>) (snd (nodes_new t1 TEX_IMAGE))))"
    by (intro update_node_ids_ok) simp_all
  then show ?thesis
    by (simp add: setup_bake_node_tree Let_def t1_def [symmetric] node_ids_ok_def)
qed


section \<open>Reroute and restore\<close>

lemma find_append:
  "find P (xs @ ys) = (case find P xs of Some x \<Rightarrow> Some x | None \<Rightarrow> find P ys)"
  by (induction xs) auto

lemma find_in_set: "find P xs = Some x \<Longrightarrow> x \<in> set xs \<and> P x"
  by (induction xs) (auto split: if_splits)

lemma list_ex_find: "list_ex P xs \<Longrightarrow> \<exists>x. find P xs = Some x"
  by (induction xs) auto

lemma relink_set:
  assumes "distinct (map snd L)" "set ls \<subseteq> set L" "set (links t) \<subseteq> set L"
    and "\<forall>l \<in> set L. socket_node (fst l) \<in> node_id ` set (nodes t) \<and>
                      socket_node (snd l) \<in> node_id ` set (nodes t)"
  shows "fst (relink t ls) = None \<and> set (links (snd (relink t ls))) = set (links t) \<union> set ls"
  using assms(2-4)
proof (induction ls arbitrary: t)
  case Nil
  then show ?case by simp
next
  case (Cons l ls)
  obtain f s where l: "l = (f, s)" by (cases l)
  from Cons.prems l have in_L: "(f, s) \<in> set L" by auto
  with Cons.prems(3) have ok: "socket_node f \<in> node_id ` set (nodes t)"
    "socket_node s \<in> node_id ` set (nodes t)" by force+
  define t' where "t' = t\<lparr>links := filter (\<lambda>(f', s'). s' \<noteq> s) (links t) @ [(f, s)]\<rparr>"
  have new: "links_new t f s = Inr t'"
    using ok by (simp add: links_new_def t'_def)
  have uniq: "\<And>x. x \<in> set L \<Longrightarrow> snd x = s \<Longrightarrow> x = (f, s)"
    using assms(1) in_L by (metis distinct_map inj_onD snd_conv)
  have links': "set (links t') = insert (f, s) (set (links t))"
    using Cons.prems(2) uniq by (auto simp: t'_def)
  have "fst (relink t' ls) = None \<and> set (links (snd (relink t' ls))) = set (links t') \<union> set ls"
  proof (rule Cons.IH)
    show "set ls \<subseteq> set L" using Cons.prems(1) by simp
    show "set (links t') \<subseteq> set L" using links' in_L Cons.prems(2) by simp
    show "\<forall>l \<in> set L. socket_node (fst l) \<in> node_id ` set (nodes t') \<and>
                      socket_node (snd l) \<in> node_id ` set (nodes t')"
      using Cons.prems(3) by (simp add: t'_def)
  qed
  then show ?case
    by (simp add: l new links')
qed


lemma setup_metallic_nodes_ready:
  assumes "reroute_ready t"
  shows "\<exists>t' new. setup_metallic_nodes t = (Inr (links t), t') \<and> nodes t' = nodes t @ new \<and>
     (\<forall>n \<in> set new. (node_type n = EMISSION \<or> node_type n = VALUE) \<and> next_node t \<le> node_id n) \<and>
     (\<forall>l \<in> set (links t'). l \<in> set (links t) \<or> socket_node (fst l) \<in> node_id ` set new \<or>
          socket_node (snd l) \<in> node_id ` set new)"
proof -
  from assms obtain out pr where
    out: "nodes_get t ''Material Output'' = Some out" and
    pr: "find (\<lambda>n. node_type n = BSDF_PRINCIPLED) (nodes t) = Some pr" and
    fresh: "\<forall>n \<in> set (nodes t). node_id n < next_node t" and
    wired: "\<forall>l \<in> set (links t). socket_node (fst l) \<in> node_id ` set (nodes t) \<and>
                     socket_node (snd l) \<in> node_id ` set (nodes t)"
    using list_ex_find [of "\<lambda>n. node_type n = BSDF_PRINCIPLED" "nodes t"]
    by (auto simp: reroute_ready_def list_all_iff)
  define e where "e = next_node t"
  define emit where "emit = \<lparr>node_id = e, node_name = ''Emission'', node_type = EMISSION,
                node_select = False, node_image = None, node_value = 0\<rparr>"
  define t1 where "t1 = t\<lparr>nodes := nodes t @ [emit], next_node := Suc e\<rparr>"
  have 1: "nodes_new t EMISSION = (emit, t1)"
    by (simp add: nodes_new_def Let_def emit_def t1_def e_def)
  have 2: "nodes_get t1 ''Material Output'' = Some out"
    using out by (simp add: nodes_get_def t1_def find_append)
  have 3: "find (\<lambda>n. node_type n = BSDF_PRINCIPLED) (nodes t1) = Some pr"
    using pr by (simp add: t1_def find_append)
  have out_in: "node_id out \<in> node_id ` set (nodes t)"
    using out find_in_set [of _ "nodes t" out] by (auto simp: nodes_get_def)
  have [simp]: "node_id emit = e" by (simp add: emit_def)
  have lt1: "links t1 = links t" by (simp add: t1_def)
  show ?thesis
  proof (cases "find (\<lambda>(f, s). s = Inp (node_id pr) ''Metallic'') (links t)")
    case (Some l)
    obtain f s where l: "l = (f, s)" by (cases l)
    from Some l have "(f, s) \<in> set (links t)"
      using find_in_set [of _ "links t" "(f, s)"] by simp
    with wired have f_in: "socket_node f \<in> node_id ` set (nodes t)" by force
    define t4 where "t4 = t1\<lparr>links := filter (\<lambda>(f', s'). s' \<noteq> Inp e ''Strength'') (links t1)
                                      @ [(f, Inp e ''Strength'')]\<rparr>"
    have 4: "links_new t1 f (Inp e ''Strength'') = Inr t4"
      using f_in by (simp add: links_new_def t4_def t1_def)
    define t5 where "t5 = t4\<lparr>links := filter (\<lambda>(f', s'). s' \<noteq> Inp (node_id out) ''Surface'') (links t4)
                                      @ [(Outp e 0, Inp (node_id out) ''Surface'')]\<rparr>"
    have 5: "links_new t4 (Outp e 0) (Inp (node_id out) ''Surface'') = Inr t5"
      using out_in by (simp add: links_new_def t5_def t4_def t1_def)
    have res: "setup_metallic_nodes t = (Inr (links t), t5)"
      unfolding setup_metallic_nodes_def
      using Some l by (simp add: 1 2 3 4 5 lt1)
    have "nodes t5 = nodes t @ [emit]"
      by (simp add: t5_def t4_def t1_def)
    moreover have "\<forall>n \<in> set [emit]. (node_type n = EMISSION \<or> node_type n = VALUE) \<and> next_node t \<le> node_id n"
      by (simp add: emit_def e_def)
    moreover have "\<forall>l \<in> set (links t5). l \<in> set (links t) \<or> socket_node (fst l) \<in> node_id ` set [emit] \<or>
          socket_node (snd l) \<in> node_id ` set [emit]"
      by (auto simp: t5_def t4_def t1_def)
    ultimately show ?thesis using res by blast
  next
    case None
    define val where "val = \<lparr>node_id = Suc e, node_name = ''Value'', node_type = VALUE,
                node_select = False, node_image = None, node_value = 0\<rparr>"
    define tv where "tv = t1\<lparr>nodes := nodes t1 @ [val], next_node := Suc (Suc e)\<rparr>"
    have v: "nodes_new t1 VALUE = (val, tv)"
      by (simp add: nodes_new_def Let_def val_def tv_def t1_def)
    define val' where "val' = val\<lparr>node_value := node_value pr\<rparr>"
    have keep: "map (\<lambda>n. if node_id n = Suc e then n\<lparr>node_value := node_value pr\<rparr> else n) (nodes t) = nodes t"
      using fresh by (intro map_idI) (auto simp: e_def)
    define tv' where "tv' = tv\<lparr>nodes := nodes t @ [emit, val']\<rparr>"
    have u: "update_node (node_id val) (\<lambda>n. n\<lparr>node_value := node_value pr\<rparr>) tv = tv'"
      by (simp add: update_node_def tv_def t1_def tv'_def val'_def keep val_def)
    define t4 where "t4 = tv'\<lparr>links := filter (\<lambda>(f', s'). s' \<noteq> Inp e ''Strength'') (links tv')
                                      @ [(Outp (Suc e) 0, Inp e ''Strength'')]\<rparr>"
    have 4: "links_new tv' (Outp (node_id val) 0) (Inp e ''Strength'') = Inr t4"
      by (simp add: links_new_def t4_def tv'_def val'_def) (simp add: val_def)
    define t5 where "t5 = t4\<lparr>links := filter (\<lambda>(f', s'). s' \<noteq> Inp (node_id out) ''Surface'') (links t4)
                                      @ [(Outp e 0, Inp (node_id out) ''Surface'')]\<rparr>"
    have 5: "links_new t4 (Outp e 0) (Inp (node_id out) ''Surface'') = Inr t5"
      using out_in by (simp add: links_new_def t5_def t4_def tv'_def)
    have None1: "find (\<lambda>(f, s). s = Inp (node_id pr) ''Metallic'') (links t1) = None"
      using None by (simp add: t1_def)
    have res: "setup_metallic_nodes t = (Inr (links t), t5)"
      unfolding setup_metallic_nodes_def
      by (simp add: 1 2 3 None1 v u 4 5)
    have "nodes t5 = nodes t @ [emit, val']"
      by (simp add: t5_def t4_def tv'_def)
    moreover have "\<forall>n \<in> set [emit, val']. (node_type n = EMISSION \<or> node_type n = VALUE) \<and> next_node t \<le> node_id n"
      by (simp add: emit_def val'_def val_def e_def)
    moreover have "\<forall>l \<in> set (links t5). l \<in> set (links t) \<or> socket_node (fst l) \<in> node_id ` set [emit, val'] \<or>
          socket_node (snd l) \<in> node_id ` set [emit, val']"
      by (auto simp: t5_def t4_def tv'_def tv_def t1_def)
    ultimately show ?thesis using res by blast
  qed
qed


lemma metallic_cycle:
  assumes "reroute_ready t"
  shows "fst (setup_metallic_nodes t) = Inr (links t) \<and>
     fst (restore_material_links (snd (setup_metallic_nodes t)) (links t)) = None \<and>
     nodes (snd (restore_material_links (snd (setup_metallic_nodes t)) (links t))) = nodes t \<and>
     set (links (snd (restore_material_links (snd (setup_metallic_nodes t)) (links t)))) = set (links t)"
proof -
  from setup_metallic_nodes_ready [OF assms] obtain t' new where
    res: "setup_metallic_nodes t = (Inr (links t), t')" and
    nodes': "nodes t' = nodes t @ new" and
    new: "\<forall>n \<in> set new. (node_type n = EMISSION \<or> node_type n = VALUE) \<and> next_node t \<le> node_id n" and
    links': "\<forall>l \<in> set (links t'). l \<in> set (links t) \<or> socket_node (fst l) \<in> node_id ` set new \<or>
          socket_node (snd l) \<in> node_id ` set new"
    by blast
  from assms have
    plain: "\<forall>n \<in> set (nodes t). node_type n \<noteq> EMISSION \<and> node_type n \<noteq> VALUE" and
    fresh: "\<forall>n \<in> set (nodes t). node_id n < next_node t" and
    wired: "\<forall>l \<in> set (links t). socket_node (fst l) \<in> node_id ` set (nodes t) \<and>
                     socket_node (snd l) \<in> node_id ` set (nodes t)" and
    single: "distinct (map snd (links t))"
    by (auto simp: reroute_ready_def list_all_iff)
  define R where "R = node_id ` {x \<in> set (nodes t'). node_type x = EMISSION \<or> node_type x = VALUE}"
  have R: "R = node_id ` set new"
    using plain new by (auto simp: R_def nodes')
  define t0 where "t0 = remove_nodes t' (nodes t')"
  have old_out: "\<And>n. n \<in> set (nodes t) \<Longrightarrow> node_id n \<notin> R"
    using fresh new by (fastforce simp: R)
  have n0: "nodes t0 = nodes t"
  proof -
    have "filter (\<lambda>n. node_id n \<notin> R) (nodes t) = nodes t"
      using old_out by (simp add: filter_id_conv)
    moreover have "filter (\<lambda>n. node_id n \<notin> R) new = []"
      by (auto simp: R filter_empty_conv)
    moreover have "nodes t0 = filter (\<lambda>n. node_id n \<notin> R) (nodes t')"
      by (simp add: t0_def remove_nodes_nodes R_def)
    ultimately show ?thesis
      by (simp add: nodes')
  qed
  have "links t0 = filter (\<lambda>l. socket_node (fst l) \<notin> R \<and> socket_node (snd l) \<notin> R) (links t')"
    by (simp add: t0_def remove_nodes_links R_def)
  then have l0: "set (links t0) \<subseteq> set (links t)"
    using links' by (auto simp: R)
  have "fst (relink t0 (links t)) = None \<and>
        set (links (snd (relink t0 (links t)))) = set (links t0) \<union> set (links t)"
    using single _ l0
  proof (rule relink_set)
    show "\<forall>l \<in> set (links t). socket_node (fst l) \<in> node_id ` set (nodes t0) \<and>
                      socket_node (snd l) \<in> node_id ` set (nodes t0)"
      using wired by (simp add: n0)
  qed simp
  moreover have "nodes (snd (relink t0 (links t))) = nodes t"
    by (simp add: relink_nodes n0)
  ultimately show ?thesis
    using l0 by (auto simp: res restore_material_links_def t0_def [symmetric])
qed


section \<open>One bake turn\<close>

subsection \<open>frame facts\<close>

lemma log_event_simps [simp]:
  "materials (log_event e s) = materials s" "objects (log_event e s) = objects s"
  "active_object (log_event e s) = active_object s" "trace (log_event e s) = trace s @ [e]"
  "folders (log_event e s) = folders s"
  by (simp_all add: log_event_def)

lemma set_tree_simps [simp]:
  "materials (set_tree m t s) = (materials s)(m := (materials s m)\<lparr>tree := t\<rparr>)"
  "objects (set_tree m t s) = objects s" "active_object (set_tree m t s) = active_object s"
  "trace (set_tree m t s) = trace s" "folders (set_tree m t s) = folders s"
  by (simp_all add: set_tree_def)

lemma create_bake_image_simps [simp]:
  "materials (create_bake_image n s) = materials s" "objects (create_bake_image n s) = objects s"
  "active_object (create_bake_image n s) = active_object s" "trace (create_bake_image n s) = trace s"
  "folders (create_bake_image n s) = folders s"
  by (simp_all add: create_bake_image_def)

lemma bake_and_save_props:
  assumes "bake_and_save en m bt p nm s = (r, s')"
  shows "materials s' = materials s" "objects s' = objects s"
    "active_object s' = active_object s" "folders s' = folders s"
    "trace s' = trace s @ Bake m (active_object s) bt #
       (if r = None then [Save p (nm @ ''.png'')] else [])"
    "r = None \<longleftrightarrow> bake_outcome en s m bt = Done"
  using assms by (auto simp: bake_and_save_def Let_def split: outcome.splits)

lemma restore_if_links_props:
  assumes "restore_if_links m ol s = (r, s')"
  shows "objects s' = objects s" "active_object s' = active_object s" "folders s' = folders s"
    "\<And>m'. m' \<noteq> m \<Longrightarrow> materials s' m' = materials s m'"
    "mat_name (materials s' m) = mat_name (materials s m)"
    "trace s' = trace s @ (case ol of None \<Rightarrow> [] | Some [] \<Rightarrow> [] | Some (l # ls) \<Rightarrow> [Restore m])"
    "tree (materials s' m) =
       (case ol of None \<Rightarrow> tree (materials s m) | Some [] \<Rightarrow> tree (materials s m)
        | Some (l # ls) \<Rightarrow> snd (restore_material_links (tree (materials s m)) (l # ls)))"
  using assms
  by (auto simp: restore_if_links_def Let_def split: option.splits list.splits prod.splits)

subsection \<open>one turn of the loop\<close>

lemma bake_calls_append [simp]: "bake_calls (xs @ ys) = bake_calls xs @ bake_calls ys"
  by (simp add: bake_calls_def)

lemma bake_calls_simps [simp]:
  "bake_calls [] = []" "bake_calls (Bake m a ty # tr) = (a, ty) # bake_calls tr"
  "bake_calls (Save d f # tr) = bake_calls tr" "bake_calls (Reroute m # tr) = bake_calls tr"
  "bake_calls (Restore m # tr) = bake_calls tr"
  by (simp_all add: bake_calls_def)

lemma baked_append [simp]: "baked m (xs @ ys) \<longleftrightarrow> baked m xs \<or> baked m ys"
  by (auto simp: baked_def list_ex_iff)

lemma baked_simps [simp]:
  "baked m [] = False" "baked m (Bake m' a ty # tr) \<longleftrightarrow> m' = m \<or> baked m tr"
  "baked m (Save d f # tr) = baked m tr" "baked m (Reroute m' # tr) = baked m tr"
  "baked m (Restore m' # tr) = baked m tr"
  by (auto simp: baked_def)

lemma assign_bake_image_props:
  assumes "assign_bake_image m bn sfx s = (nm, s2)"
  shows "nm = map_name_of (mat_name (materials s m)) sfx"
    "objects s2 = objects s" "active_object s2 = active_object s" "folders s2 = folders s"
    "trace s2 = trace s"
    "materials s2 = (materials s)(m := (materials s m)\<lparr>tree :=
        update_node bn (\<lambda>n. n\<lparr>node_image := Some nm\<rparr>) (tree (materials s m))\<rparr>)"
  using assms by (auto simp: assign_bake_image_def Let_def)

lemma reroute_metallic_plain:
  "snd c \<noteq> ''metallic'' \<Longrightarrow> reroute_metallic m c s = (None, None, fst c, s)"
  by (simp add: reroute_metallic_def)

lemma reroute_metallic_props:
  assumes "reroute_metallic m c s = (r3, ol, bt, s3)" "snd c = ''metallic''"
  shows "objects s3 = objects s" "active_object s3 = active_object s" "folders s3 = folders s"
    "trace s3 = trace s @ [Reroute m]"
    "materials s3 = (materials s)(m := (materials s m)\<lparr>tree :=
        snd (setup_metallic_nodes (tree (materials s m)))\<rparr>)"
    "case fst (setup_metallic_nodes (tree (materials s m))) of
       Inl e \<Rightarrow> r3 = Some e \<and> ol = None
     | Inr snap \<Rightarrow> r3 = None \<and> ol = Some snap \<and> bt = ''EMIT''"
  using assms
  by (auto simp: reroute_metallic_def Let_def split: prod.splits sum.splits)

lemma bake_map_trace:
  "\<exists>ev. trace (snd (bake_map en m bn p c s)) = trace s @ ev \<and>
     (bake_calls ev = [] \<or> bake_calls ev = [(active_object s, effective_type c)]) \<and>
     (fst (bake_map en m bn p c s) \<longrightarrow>
        bake_calls ev = [(active_object s, effective_type c)]) \<and>
     (\<forall>m'. baked m' ev \<longrightarrow> m' = m)"
proof -
  obtain nm s2 where 1: "assign_bake_image m bn (snd c) s = (nm, s2)" by force
  obtain r3 ol bt s3 where 2: "reroute_metallic m c s2 = (r3, ol, bt, s3)"
    by (metis prod_cases4)
  note p1 = assign_bake_image_props(2-5) [OF 1]
  show ?thesis
  proof (cases "snd c = ''metallic''")
    case False
    with 2 have r: "r3 = None" "ol = None" "bt = fst c" "s3 = s2"
      by (simp_all add: reroute_metallic_plain)
    obtain r4 s4 where 4: "bake_and_save en m (fst c) p nm s2 = (r4, s4)" by force
    have t4: "trace s4 = trace s @ Bake m (active_object s) (fst c) #
           (if r4 = None then [Save p (nm @ ''.png'')] else [])"
      using bake_and_save_props(5) [OF 4] by (simp add: p1)
    have "bake_map en m bn p c s = (r4 = None, s4)"
      using r by (simp add: bake_map_def 1 2 4 restore_if_links_def)
    then show ?thesis
      using False by (auto simp: t4 effective_type_def)
  next
    case True
    note p2 = reroute_metallic_props [OF 2 True]
    show ?thesis
    proof (cases r3)
      case (Some e)
      then have "bake_map en m bn p c s = (False, s3)"
        by (simp add: bake_map_def 1 2)
      then show ?thesis
        using True by (simp add: p1 p2(1-4) effective_type_def)
    next
      case None
      with p2(6) have bt: "bt = ''EMIT''" by (auto split: sum.splits)
      obtain r4 s4 where 4: "bake_and_save en m bt p nm s3 = (r4, s4)" by force
      obtain r5 s5 where 5: "restore_if_links m ol s4 = (r5, s5)" by force
      have t4: "trace s4 = trace s @ Reroute m # Bake m (active_object s) ''EMIT'' #
           (if r4 = None then [Save p (nm @ ''.png'')] else [])"
        using bake_and_save_props(5) [OF 4] by (simp add: p1 p2(1-4) bt)
      note t5 = restore_if_links_props(6) [OF 5]
      have "bake_map en m bn p c s = (r4 = None \<and> r5 = None, s5)"
        using None by (simp add: bake_map_def 1 2 4 5)
      then show ?thesis
        using True by (auto simp: t4 t5 effective_type_def split: option.splits list.splits)
    qed
  qed
qed

lemma bake_map_frame:
  "objects (snd (bake_map en m bn p c s)) = objects s \<and>
   active_object (snd (bake_map en m bn p c s)) = active_object s \<and>
   folders (snd (bake_map en m bn p c s)) = folders s \<and>
   (\<forall>m'. m' \<noteq> m \<longrightarrow> materials (snd (bake_map en m bn p c s)) m' = materials s m') \<and>
   mat_name (materials (snd (bake_map en m bn p c s)) m) = mat_name (materials s m)"
proof -
  obtain nm s2 where 1: "assign_bake_image m bn (snd c) s = (nm, s2)" by force
  obtain r3 ol bt s3 where 2: "reroute_metallic m c s2 = (r3, ol, bt, s3)"
    by (metis prod_cases4)
  note p1 = assign_bake_image_props(2-6) [OF 1]
  have f3: "objects s3 = objects s \<and> active_object s3 = active_object s \<and> folders s3 = folders s \<and>
     (\<forall>m'. m' \<noteq> m \<longrightarrow> materials s3 m' = materials s m') \<and>
     mat_name (materials s3 m) = mat_name (materials s m)"
  proof (cases "snd c = ''metallic''")
    case False
    with 2 have "s3 = s2" by (simp add: reroute_metallic_plain)
    then show ?thesis by (simp add: p1)
  next
    case True
    from reroute_metallic_props [OF 2 True] show ?thesis by (simp add: p1)
  qed
  show ?thesis
  proof (cases r3)
    case (Some e)
    then show ?thesis using f3 by (simp add: bake_map_def 1 2)
  next
    case None
    obtain r4 s4 where 4: "bake_and_save en m bt p nm s3 = (r4, s4)" by force
    obtain r5 s5 where 5: "restore_if_links m ol s4 = (r5, s5)" by force
    have "bake_map en m bn p c s = (r4 = None \<and> r5 = None, s5)"
      using None by (simp add: bake_map_def 1 2 4 5)
    then show ?thesis
      using f3 bake_and_save_props(1-4) [OF 4] restore_if_links_props(1-5) [OF 5]
      by simp
  qed
qed


lemma bake_map_tree_preserves:
  assumes "P (tree (materials s m))"
    and "\<And>t nm. P t \<Longrightarrow> P (update_node bn (\<lambda>n. n\<lparr>node_image := Some nm\<rparr>) t)"
    and "\<And>t. P t \<Longrightarrow> P (snd (setup_metallic_nodes t))"
    and "\<And>t snap. P t \<Longrightarrow> P (snd (restore_material_links t snap))"
  shows "P (tree (materials (snd (bake_map en m bn p c s)) m))"
proof -
  obtain nm s2 where 1: "assign_bake_image m bn (snd c) s = (nm, s2)" by force
  obtain r3 ol bt s3 where 2: "reroute_metallic m c s2 = (r3, ol, bt, s3)"
    by (metis prod_cases4)
  note p1 = assign_bake_image_props(2-6) [OF 1]
  have P2: "P (tree (materials s2 m))"
    using assms(1,2) by (simp add: p1)
  have P3: "P (tree (materials s3 m))"
  proof (cases "snd c = ''metallic''")
    case False
    with 2 have "s3 = s2" by (simp add: reroute_metallic_plain)
    then show ?thesis using P2 by simp
  next
    case True
    from reroute_metallic_props(5) [OF 2 True] P2 assms(3) show ?thesis by simp
  qed
  show ?thesis
  proof (cases r3)
    case (Some e)
    then show ?thesis using P3 by (simp add: bake_map_def 1 2)
  next
    case None
    obtain r4 s4 where 4: "bake_and_save en m bt p nm s3 = (r4, s4)" by force
    obtain r5 s5 where 5: "restore_if_links m ol s4 = (r5, s5)" by force
    have "bake_map en m bn p c s = (r4 = None \<and> r5 = None, s5)"
      using None by (simp add: bake_map_def 1 2 4 5)
    moreover have "P (tree (materials s5 m))"
      using P3 assms(4) bake_and_save_props(1) [OF 4] restore_if_links_props(7) [OF 5]
      by (auto split: option.splits list.splits)
    ultimately show ?thesis by simp
  qed
qed

lemma map_map_same: "(\<And>n. g (f n) = g n) \<Longrightarrow> map g (map f xs) = map g xs"
  by (induction xs) auto

lemma list_ex_map_same: "(\<And>n. P (f n) = P n) \<Longrightarrow> list_ex P (map f xs) = list_ex P xs"
  by (induction xs) auto

lemma list_all_map_same: "(\<And>n. P (f n) = P n) \<Longrightarrow> list_all P (map f xs) = list_all P xs"
  by (induction xs) auto

lemma find_map_same: "(\<And>n. P (f n) = P n) \<Longrightarrow> (find P (map f xs) = None) = (find P xs = None)"
  by (induction xs) auto

lemma update_node_image_ready:
  assumes "reroute_ready t"
  shows "reroute_ready (update_node i (\<lambda>n. n\<lparr>node_image := x\<rparr>) t)"
proof -
  let ?f = "\<lambda>n. if node_id n = i then n\<lparr>node_image := x\<rparr> else n"
  have "map node_id (map ?f (nodes t)) = map node_id (nodes t)"
    by (rule map_map_same) simp
  then have ids: "node_id ` set (map ?f (nodes t)) = node_id ` set (nodes t)"
    by (metis set_map)
  have e1: "(find (\<lambda>n. node_name n = ''Material Output'') (map ?f (nodes t)) = None)
      = (find (\<lambda>n. node_name n = ''Material Output'') (nodes t) = None)"
    by (rule find_map_same) simp
  have e2: "list_ex (\<lambda>n. node_type n = BSDF_PRINCIPLED) (map ?f (nodes t))
      = list_ex (\<lambda>n. node_type n = BSDF_PRINCIPLED) (nodes t)"
    by (rule list_ex_map_same) simp
  have e3: "list_all (\<lambda>n. node_type n \<noteq> EMISSION \<and> node_type n \<noteq> VALUE) (map ?f (nodes t))
      = list_all (\<lambda>n. node_type n \<noteq> EMISSION \<and> node_type n \<noteq> VALUE) (nodes t)"
    by (rule list_all_map_same) simp
  have e4: "list_all (\<lambda>n. node_id n < next_node t) (map ?f (nodes t))
      = list_all (\<lambda>n. node_id n < next_node t) (nodes t)"
    by (rule list_all_map_same) simp
  have sel: "nodes (update_node i (\<lambda>n. n\<lparr>node_image := x\<rparr>) t) = map ?f (nodes t)"
    "links (update_node i (\<lambda>n. n\<lparr>node_image := x\<rparr>) t) = links t"
    "next_node (update_node i (\<lambda>n. n\<lparr>node_image := x\<rparr>) t) = next_node t"
    by (simp_all add: update_node_def)
  show ?thesis
    using assms unfolding reroute_ready_def nodes_get_def sel
    by (simp only: e1 e2 e3 e4 ids) simp
qed


lemma bake_map_metallic_round_trip:
  assumes "snd c = ''metallic''" "reroute_ready (tree (materials s m))"
    "links (tree (materials s m)) \<noteq> []"
  shows "nodes (tree (materials (snd (bake_map en m bn p c s)) m)) =
           nodes (update_node bn (\<lambda>n. n\<lparr>node_image := Some (map_name_of (mat_name (materials s m)) (snd c))\<rparr>)
                    (tree (materials s m))) \<and>
         set (links (tree (materials (snd (bake_map en m bn p c s)) m))) = set (links (tree (materials s m))) \<and>
         count_event (Restore m) (trace (snd (bake_map en m bn p c s))) = Suc (count_event (Restore m) (trace s)) \<and>
         count_event (Reroute m) (trace (snd (bake_map en m bn p c s))) = Suc (count_event (Reroute m) (trace s))"
proof -
  obtain nm s2 where 1: "assign_bake_image m bn (snd c) s = (nm, s2)" by force
  obtain r3 ol bt s3 where 2: "reroute_metallic m c s2 = (r3, ol, bt, s3)"
    by (metis prod_cases4)
  note p1 = assign_bake_image_props [OF 1]
  note p2 = reroute_metallic_props [OF 2 assms(1)]
  define t2 where "t2 = update_node bn (\<lambda>n. n\<lparr>node_image := Some nm\<rparr>) (tree (materials s m))"
  have t2: "tree (materials s2 m) = t2" by (simp add: p1(6) t2_def)
  have l2: "links t2 = links (tree (materials s m))" by (simp add: t2_def update_node_def)
  have "reroute_ready t2"
    unfolding t2_def using assms(2) by (rule update_node_image_ready)
  note cyc = metallic_cycle [OF this]
  from cyc p2(6) have r3: "r3 = None" "ol = Some (links t2)"
    by (simp_all add: t2)
  obtain r4 s4 where 4: "bake_and_save en m bt p nm s3 = (r4, s4)" by force
  obtain r5 s5 where 5: "restore_if_links m ol s4 = (r5, s5)" by force
  have eq: "bake_map en m bn p c s = (r4 = None \<and> r5 = None, s5)"
    using r3(1) by (simp add: bake_map_def 1 2 4 5)
  have "links t2 \<noteq> []" using assms(3) l2 by simp
  then obtain l ls where ls: "links t2 = l # ls"
    by (cases "links t2") simp_all
  have "tree (materials s5 m) = snd (restore_material_links (snd (setup_metallic_nodes t2)) (links t2))"
    using restore_if_links_props(7) [OF 5] bake_and_save_props(1) [OF 4]
    by (simp add: r3 ls [symmetric] p2(5) t2) (simp add: ls)
  with cyc l2 have "nodes (tree (materials s5 m)) = nodes t2"
    "set (links (tree (materials s5 m))) = set (links (tree (materials s m)))"
    by simp_all
  moreover have "trace s5 = trace s @ Reroute m # Bake m (active_object s) bt #
       (if r4 = None then [Save p (nm @ ''.png'')] else []) @ [Restore m]"
    using restore_if_links_props(6) [OF 5] bake_and_save_props(5) [OF 4]
    by (simp add: r3 ls p2 p1(2-5))
  ultimately show ?thesis
    by (simp add: eq t2_def p1(1) count_event_def)
qed


section \<open>The loops of the baker\<close>

subsection \<open>the loop over the bake types\<close>

lemma bake_maps_frame:
  "objects (snd (bake_maps en m bn p cs s)) = objects s \<and>
   active_object (snd (bake_maps en m bn p cs s)) = active_object s \<and>
   folders (snd (bake_maps en m bn p cs s)) = folders s \<and>
   (\<forall>m'. m' \<noteq> m \<longrightarrow> materials (snd (bake_maps en m bn p cs s)) m' = materials s m') \<and>
   mat_name (materials (snd (bake_maps en m bn p cs s)) m) = mat_name (materials s m)"
proof (induction cs arbitrary: s)
  case Nil
  then show ?case by simp
next
  case (Cons c cs)
  obtain ok s' where 1: "bake_map en m bn p c s = (ok, s')" by force
  from bake_map_frame [of en m bn p c s] Cons.IH [of s'] show ?case
    by (cases ok) (simp_all add: 1)
qed

lemma bake_maps_tree_preserves:
  assumes "P (tree (materials s m))"
    and "\<And>t nm. P t \<Longrightarrow> P (update_node bn (\<lambda>n. n\<lparr>node_image := Some nm\<rparr>) t)"
    and "\<And>t. P t \<Longrightarrow> P (snd (setup_metallic_nodes t))"
    and "\<And>t snap. P t \<Longrightarrow> P (snd (restore_material_links t snap))"
  shows "P (tree (materials (snd (bake_maps en m bn p cs s)) m))"
  using assms(1)
proof (induction cs arbitrary: s)
  case Nil
  then show ?case by simp
next
  case (Cons c cs)
  obtain ok s' where 1: "bake_map en m bn p c s = (ok, s')" by force
  have "P (tree (materials s' m))"
    using bake_map_tree_preserves [of P s m bn en p c, OF Cons.prems assms(2-4)]
    by (simp add: 1)
  with Cons.IH [of s'] show ?case
    by (cases ok) (simp_all add: 1)
qed

lemma bake_maps_trace:
  "\<exists>ev rest. trace (snd (bake_maps en m bn p cs s)) = trace s @ ev \<and>
     map (\<lambda>c. (active_object s, effective_type c)) cs = bake_calls ev @ rest \<and>
     (fst (bake_maps en m bn p cs s) \<longrightarrow> rest = []) \<and>
     (\<forall>m'. baked m' ev \<longrightarrow> m' = m)"
proof (induction cs arbitrary: s)
  case Nil
  then show ?case by simp
next
  case (Cons c cs)
  obtain ok s' where 1: "bake_map en m bn p c s = (ok, s')" by force
  from bake_map_trace [of en m bn p c s] obtain ev where ev:
    "trace s' = trace s @ ev"
    "bake_calls ev = [] \<or> bake_calls ev = [(active_object s, effective_type c)]"
    "ok \<longrightarrow> bake_calls ev = [(active_object s, effective_type c)]"
    "\<forall>m'. baked m' ev \<longrightarrow> m' = m"
    by (auto simp: 1)
  have act: "active_object s' = active_object s"
    using bake_map_frame [of en m bn p c s] by (simp add: 1)
  show ?case
  proof (cases ok)
    case False
    then have "bake_maps en m bn p (c # cs) s = (False, s')" by (simp add: 1)
    moreover from ev(2) have "\<exists>rest. map (\<lambda>c. (active_object s, effective_type c)) (c # cs) = bake_calls ev @ rest"
      by auto
    ultimately show ?thesis using ev(1,4) by auto
  next
    case True
    then have eq: "bake_maps en m bn p (c # cs) s = bake_maps en m bn p cs s'" by (simp add: 1)
    from Cons.IH [of s'] obtain ev' rest where ev':
      "trace (snd (bake_maps en m bn p cs s')) = trace s' @ ev'"
      "map (\<lambda>c. (active_object s, effective_type c)) cs = bake_calls ev' @ rest"
      "fst (bake_maps en m bn p cs s') \<longrightarrow> rest = []"
      "\<forall>m'. baked m' ev' \<longrightarrow> m' = m"
      by (auto simp: act)
    from True ev(3) have c: "bake_calls ev = [(active_object s, effective_type c)]" by simp
    show ?thesis
      unfolding eq using ev(1,4) ev' c
      by (intro exI [of _ "ev @ ev'"] exI [of _ rest]) auto
  qed
qed


subsection \<open>the loop over the UV groups\<close>

lemma bake_groups_step:
  "bake_groups en m p ((fp, first # others) # rest) s =
     (let s4 = s\<lparr>selected := [first], active_object := Some first,
                 materials := (materials s)(m := snd (setup_bake_node (materials s m)))\<rparr>;
          r = bake_maps en m (node_id (fst (setup_bake_node (materials s m)))) p BAKE_TYPES s4
      in if \<not> fst r then (False, snd r) else bake_groups en m p rest (snd r))"
  by (simp add: Let_def bake_all_maps_def split: prod.splits)

lemma bake_schedule_Cons:
  "bake_schedule ((fp, first # others) # rest) =
     map (\<lambda>c. (Some first, effective_type c)) BAKE_TYPES @ bake_schedule rest"
  by (simp add: bake_schedule_def)

lemma bake_groups_frame:
  "objects (snd (bake_groups en m p gs s)) = objects s \<and>
   folders (snd (bake_groups en m p gs s)) = folders s \<and>
   (\<forall>m'. m' \<noteq> m \<longrightarrow> materials (snd (bake_groups en m p gs s)) m' = materials s m')"
proof (induction gs arbitrary: s)
  case Nil
  then show ?case by simp
next
  case (Cons g gs)
  obtain fp obs where g: "g = (fp, obs)" by (cases g)
  show ?case
  proof (cases obs)
    case Nil
    then show ?thesis by (simp add: g)
  next
    case (Cons first others)
    define s4 where "s4 = s\<lparr>selected := [first], active_object := Some first,
                 materials := (materials s)(m := snd (setup_bake_node (materials s m)))\<rparr>"
    define r where "r = bake_maps en m (node_id (fst (setup_bake_node (materials s m)))) p BAKE_TYPES s4"
    have eq: "bake_groups en m p (g # gs) s =
        (if \<not> fst r then (False, snd r) else bake_groups en m p gs (snd r))"
      unfolding g Cons bake_groups_step by (simp add: Let_def s4_def r_def)
    have "objects (snd r) = objects s \<and> folders (snd r) = folders s \<and>
        (\<forall>m'. m' \<noteq> m \<longrightarrow> materials (snd r) m' = materials s m')"
      using bake_maps_frame [of en m "node_id (fst (setup_bake_node (materials s m)))" p BAKE_TYPES s4]
      by (simp add: r_def [symmetric]) (simp add: s4_def)
    with Cons.IH [of "snd r"] show ?thesis
      unfolding eq by simp
  qed
qed

lemma bake_groups_trace:
  "\<exists>ev rest. trace (snd (bake_groups en m p gs s)) = trace s @ ev \<and>
     bake_schedule gs = bake_calls ev @ rest \<and>
     (fst (bake_groups en m p gs s) \<longrightarrow> rest = []) \<and>
     (\<forall>m'. baked m' ev \<longrightarrow> m' = m)"
proof (induction gs arbitrary: s)
  case Nil
  then show ?case by (simp add: bake_schedule_def)
next
  case (Cons g gs)
  obtain fp obs where g: "g = (fp, obs)" by (cases g)
  show ?case
  proof (cases obs)
    case Nil
    then show ?thesis by (simp add: g)
  next
    case (Cons first others)
    define s4 where "s4 = s\<lparr>selected := [first], active_object := Some first,
                 materials := (materials s)(m := snd (setup_bake_node (materials s m)))\<rparr>"
    define r where "r = bake_maps en m (node_id (fst (setup_bake_node (materials s m)))) p BAKE_TYPES s4"
    have eq: "bake_groups en m p (g # gs) s =
        (if \<not> fst r then (False, snd r) else bake_groups en m p gs (snd r))"
      unfolding g Cons bake_groups_step by (simp add: Let_def s4_def r_def)
    have sch: "bake_schedule (g # gs) =
        map (\<lambda>c. (Some first, effective_type c)) BAKE_TYPES @ bake_schedule gs"
      unfolding g Cons by (rule bake_schedule_Cons)
    from bake_maps_trace [of en m "node_id (fst (setup_bake_node (materials s m)))" p BAKE_TYPES s4]
    obtain ev rest where ev:
      "trace (snd r) = trace s @ ev"
      "map (\<lambda>c. (Some first, effective_type c)) BAKE_TYPES = bake_calls ev @ rest"
      "fst r \<longrightarrow> rest = []"
      "\<forall>m'. baked m' ev \<longrightarrow> m' = m"
      unfolding r_def [symmetric] by (auto simp: s4_def)
    show ?thesis
    proof (cases "fst r")
      case False
      then have "bake_groups en m p (g # gs) s = (False, snd r)" by (simp add: eq)
      then show ?thesis
        using ev by (intro exI [of _ ev] exI [of _ "rest @ bake_schedule gs"]) (simp add: sch)
    next
      case True
      then have eq': "bake_groups en m p (g # gs) s = bake_groups en m p gs (snd r)"
        by (simp add: eq)
      from Cons.IH [of "snd r"] obtain ev' rest' where ev':
        "trace (snd (bake_groups en m p gs (snd r))) = trace (snd r) @ ev'"
        "bake_schedule gs = bake_calls ev' @ rest'"
        "fst (bake_groups en m p gs (snd r)) \<longrightarrow> rest' = []"
        "\<forall>m'. baked m' ev' \<longrightarrow> m' = m"
        by blast
      from True ev have "map (\<lambda>c. (Some first, effective_type c)) BAKE_TYPES = bake_calls ev"
        by simp
      then show ?thesis
        unfolding eq' using ev(1,4) ev'
        by (intro exI [of _ "ev @ ev'"] exI [of _ rest']) (auto simp: sch)
    qed
  qed
qed


section \<open>The bake node\<close>

subsection \<open>the bake node survives\<close>

lemma tree_ok_update:
  "node_ids_ok t \<and> has_bake_target t \<Longrightarrow>
     node_ids_ok (update_node bn (\<lambda>n. n\<lparr>node_image := Some nm\<rparr>) t) \<and>
     has_bake_target (update_node bn (\<lambda>n. n\<lparr>node_image := Some nm\<rparr>) t)"
  by (simp add: update_node_ids_ok update_node_bake_target)

lemma tree_ok_setup:
  "node_ids_ok t \<and> has_bake_target t \<Longrightarrow>
     node_ids_ok (snd (setup_metallic_nodes t)) \<and> has_bake_target (snd (setup_metallic_nodes t))"
  by (simp add: setup_metallic_nodes_ids_ok setup_metallic_nodes_bake_target)

lemma tree_ok_restore:
  "node_ids_ok t \<and> has_bake_target t \<Longrightarrow>
     node_ids_ok (snd (restore_material_links t snap)) \<and>
     has_bake_target (snd (restore_material_links t snap))"
  by (simp add: restore_material_links_ids_ok restore_material_links_bake_target)

lemma bake_groups_inv:
  assumes "\<forall>m'. node_ids_ok (tree (materials s m'))"
    and "\<forall>m'. baked m' (trace s) \<longrightarrow> has_bake_target (tree (materials s m'))"
  shows "(\<forall>m'. node_ids_ok (tree (materials (snd (bake_groups en m p gs s)) m'))) \<and>
     (\<forall>m'. baked m' (trace (snd (bake_groups en m p gs s))) \<longrightarrow>
        has_bake_target (tree (materials (snd (bake_groups en m p gs s)) m')))"
  using assms
proof (induction gs arbitrary: s)
  case Nil
  then show ?case by simp
next
  case (Cons g gs)
  obtain fp obs where g: "g = (fp, obs)" by (cases g)
  show ?case
  proof (cases obs)
    case Nil
    with Cons.prems show ?thesis by (simp add: g)
  next
    case (Cons first others)
    define s4 where "s4 = s\<lparr>selected := [first], active_object := Some first,
                 materials := (materials s)(m := snd (setup_bake_node (materials s m)))\<rparr>"
    define bn where "bn = node_id (fst (setup_bake_node (materials s m)))"
    define r where "r = bake_maps en m bn p BAKE_TYPES s4"
    have eq: "bake_groups en m p (g # gs) s =
        (if \<not> fst r then (False, snd r) else bake_groups en m p gs (snd r))"
      unfolding g Cons bake_groups_step by (simp add: Let_def s4_def r_def bn_def)
    have 4: "node_ids_ok (tree (materials s4 m)) \<and> has_bake_target (tree (materials s4 m))"
      using Cons.prems(1) by (simp add: s4_def setup_bake_node_ids_ok setup_bake_node_bake_target)
    have m: "node_ids_ok (tree (materials (snd r) m)) \<and> has_bake_target (tree (materials (snd r) m))"
      unfolding r_def
      by (rule bake_maps_tree_preserves [where P = "\<lambda>t. node_ids_ok t \<and> has_bake_target t",
            OF 4 tree_ok_update tree_ok_setup tree_ok_restore])
    have others: "\<And>m'. m' \<noteq> m \<Longrightarrow> materials (snd r) m' = materials s m'"
      using bake_maps_frame [of en m bn p BAKE_TYPES s4] by (simp add: r_def s4_def)
    from bake_maps_trace [of en m bn p BAKE_TYPES s4] obtain ev where
      ev: "trace (snd r) = trace s @ ev" "\<forall>m'. baked m' ev \<longrightarrow> m' = m"
      unfolding r_def [symmetric] by (auto simp: s4_def)
    have inv: "(\<forall>m'. node_ids_ok (tree (materials (snd r) m'))) \<and>
       (\<forall>m'. baked m' (trace (snd r)) \<longrightarrow> has_bake_target (tree (materials (snd r) m')))"
    proof (intro conjI allI impI)
      fix m' show "node_ids_ok (tree (materials (snd r) m'))"
        using m others [of m'] Cons.prems(1) by (cases "m' = m") simp_all
    next
      fix m' assume "baked m' (trace (snd r))"
      then show "has_bake_target (tree (materials (snd r) m'))"
        using m others [of m'] Cons.prems(2) ev by (cases "m' = m") auto
    qed
    show ?thesis
    proof (cases "fst r")
      case False
      with inv show ?thesis by (simp add: eq)
    next
      case True
      with Cons.IH [of "snd r"] inv show ?thesis by (simp add: eq)
    qed
  qed
qed

lemma ensure_folder_props:
  assumes "ensure_folder en p s = (r, s')"
  shows "materials s' = materials s" "trace s' = trace s" "objects s' = objects s"
  using assms by (auto simp: ensure_folder_def split: if_splits)

lemma create_material_folder_props:
  assumes "create_material_folder en nm p s = (r, s')"
  shows "materials s' = materials s" "trace s' = trace s" "objects s' = objects s"
  using assms
  by (auto simp: create_material_folder_def ensure_folder_def Let_def split: if_splits)

lemma get_output_path_props:
  assumes "get_output_path en s = (r, s')"
  shows "materials s' = materials s" "trace s' = trace s" "objects s' = objects s"
    "r \<noteq> Inl BakeError" "r \<noteq> Inl SaveError"
  using assms
  by (auto simp: get_output_path_def ensure_folder_def Let_def split: if_splits)

lemma bake_material_inv:
  assumes "\<forall>m'. node_ids_ok (tree (materials s m'))"
    and "\<forall>m'. baked m' (trace s) \<longrightarrow> has_bake_target (tree (materials s m'))"
  shows "(\<forall>m'. node_ids_ok (tree (materials (snd (bake_material h en m p s)) m'))) \<and>
     (\<forall>m'. baked m' (trace (snd (bake_material h en m p s))) \<longrightarrow>
        has_bake_target (tree (materials (snd (bake_material h en m p s)) m')))"
proof -
  obtain r s1 where 1: "create_material_folder en (mat_name (materials s m)) p s = (r, s1)"
    by force
  note p1 = create_material_folder_props [OF 1]
  have inv1: "\<forall>m'. node_ids_ok (tree (materials s1 m'))"
    "\<forall>m'. baked m' (trace s1) \<longrightarrow> has_bake_target (tree (materials s1 m'))"
    using assms by (simp_all add: p1)
  show ?thesis
  proof (cases r)
    case (Inl e)
    with inv1 show ?thesis by (simp add: bake_material_def 1)
  next
    case (Inr path)
    show ?thesis
    proof (cases "group_objects h m (zip [0..<length (objects s1)] (objects s1)) []")
      case (Inl e)
      with Inr inv1 show ?thesis by (simp add: bake_material_def 1)
    next
      case gs: (Inr gs)
      from bake_groups_inv [OF inv1, of en m path gs] inv1 Inr gs show ?thesis
        by (simp add: bake_material_def 1)
    qed
  qed
qed

lemma bake_materials_inv:
  assumes "\<forall>m'. node_ids_ok (tree (materials s m'))"
    and "\<forall>m'. baked m' (trace s) \<longrightarrow> has_bake_target (tree (materials s m'))"
  shows "(\<forall>m'. node_ids_ok (tree (materials (snd (bake_materials h en p ms n s)) m'))) \<and>
     (\<forall>m'. baked m' (trace (snd (bake_materials h en p ms n s))) \<longrightarrow>
        has_bake_target (tree (materials (snd (bake_materials h en p ms n s)) m')))"
  using assms
proof (induction ms arbitrary: n s)
  case Nil
  then show ?case by simp
next
  case (Cons m ms)
  obtain ok s' where 1: "bake_material h en m p s = (ok, s')" by force
  from bake_material_inv [OF Cons.prems, of h en m p] have
    "\<forall>m'. node_ids_ok (tree (materials s' m'))"
    "\<forall>m'. baked m' (trace s') \<longrightarrow> has_bake_target (tree (materials s' m'))"
    by (simp_all add: 1)
  from Cons.IH [OF this] show ?case
    by (cases ok) (simp_all add: 1)
qed


section \<open>Failures\<close>

subsection \<open>a failing bake\<close>

lemma effective_type_BAKE_TYPES: "c \<in> set BAKE_TYPES \<Longrightarrow> effective_type c = fst c"
  by (auto simp: BAKE_TYPES_def effective_type_def)

lemma bake_map_raises:
  assumes "c \<in> set BAKE_TYPES" "\<forall>s'. bake_outcome en s' m (fst c) = BakeRaises"
  shows "fst (bake_map en m bn p c s) = False"
proof -
  obtain nm s2 where 1: "assign_bake_image m bn (snd c) s = (nm, s2)" by force
  obtain r3 ol bt s3 where 2: "reroute_metallic m c s2 = (r3, ol, bt, s3)"
    by (metis prod_cases4)
  show ?thesis
  proof (cases r3)
    case (Some e)
    then show ?thesis by (simp add: bake_map_def 1 2)
  next
    case None
    have bt: "bt = fst c"
    proof (cases "snd c = ''metallic''")
      case False
      with 2 show ?thesis by (simp add: reroute_metallic_plain)
    next
      case True
      from reroute_metallic_props(6) [OF 2 True] None have "bt = ''EMIT''"
        by (auto split: sum.splits)
      with True effective_type_BAKE_TYPES [OF assms(1)] show ?thesis
        by (simp add: effective_type_def)
    qed
    obtain r4 s4 where 4: "bake_and_save en m bt p nm s3 = (r4, s4)" by force
    obtain r5 s5 where 5: "restore_if_links m ol s4 = (r5, s5)" by force
    from bake_and_save_props(6) [OF 4] assms(2) have "r4 \<noteq> None" by (simp add: bt)
    then show ?thesis
      using None by (simp add: bake_map_def 1 2 4 5)
  qed
qed

lemma bake_maps_raises:
  assumes "\<forall>s'. bake_outcome en s' m ty = BakeRaises"
  shows "set cs \<subseteq> set BAKE_TYPES \<Longrightarrow> ty \<in> fst ` set cs \<Longrightarrow> fst (bake_maps en m bn p cs s) = False"
proof (induction cs arbitrary: s)
  case Nil
  then show ?case by simp
next
  case (Cons c cs)
  obtain ok s' where 1: "bake_map en m bn p c s = (ok, s')" by force
  show ?case
  proof (cases ok)
    case False
    then show ?thesis by (simp add: 1)
  next
    case True
    have "fst c \<noteq> ty"
    proof
      assume "fst c = ty"
      with bake_map_raises [of c en m bn p s] Cons.prems(1) assms True 1 show False by simp
    qed
    with Cons.prems have "ty \<in> fst ` set cs" by auto
    with Cons.IH [of s'] Cons.prems(1) True show ?thesis by (simp add: 1)
  qed
qed

lemma bake_maps_stop:
  "bake_maps en m bn p pre s = (True, s1) \<Longrightarrow> fst (bake_map en m bn p c s1) = False \<Longrightarrow>
     bake_maps en m bn p (pre @ c # rest) s = (False, snd (bake_map en m bn p c s1))"
proof (induction pre arbitrary: s)
  case Nil
  then show ?case by (cases "bake_map en m bn p c s1") auto
next
  case (Cons a pre)
  obtain ok s' where 1: "bake_map en m bn p a s = (ok, s')" by force
  with Cons.prems(1) have ok: "ok" and 2: "bake_maps en m bn p pre s' = (True, s1)"
    by (cases ok; simp)+
  from Cons.IH [OF 2 Cons.prems(2)] show ?case by (simp add: 1 ok)
qed

lemma bake_groups_raises:
  assumes "\<forall>s'. bake_outcome en s' m ty = BakeRaises" "ty \<in> fst ` set BAKE_TYPES" "gs \<noteq> []"
  shows "fst (bake_groups en m p gs s) = False"
proof -
  obtain g rest where gs: "gs = g # rest" using assms(3) by (cases gs) auto
  obtain fp obs where g: "g = (fp, obs)" by (cases g)
  show ?thesis
  proof (cases obs)
    case Nil
    then show ?thesis by (simp add: gs g)
  next
    case (Cons first others)
    have "\<And>bn s4. fst (bake_maps en m bn p BAKE_TYPES s4) = False"
      using bake_maps_raises [OF assms(1) subset_refl assms(2)] by simp
    then show ?thesis
      unfolding gs g Cons bake_groups_step by (simp add: Let_def)
  qed
qed

lemma bake_material_raises:
  assumes "\<forall>s'. bake_outcome en s' m ty = BakeRaises" "ty \<in> fst ` set BAKE_TYPES"
  shows "fst (bake_material h en m p s) = False"
proof -
  obtain r s1 where 1: "create_material_folder en (mat_name (materials s m)) p s = (r, s1)"
    by force
  show ?thesis
  proof (cases r)
    case (Inl e)
    then show ?thesis by (simp add: bake_material_def 1)
  next
    case (Inr path)
    show ?thesis
    proof (cases "group_objects h m (zip [0..<length (objects s1)] (objects s1)) []")
      case (Inl e)
      with Inr show ?thesis by (simp add: bake_material_def 1)
    next
      case gs: (Inr gs)
      from bake_groups_raises [OF assms, of gs path s1] Inr gs show ?thesis
        by (simp add: bake_material_def 1)
    qed
  qed
qed

lemma execute_no_bake_error:
  "fst (execute h en s) \<noteq> Inl BakeError \<and> fst (execute h en s) \<noteq> Inl SaveError"
proof -
  obtain r s2 where 1: "get_output_path en (duplicate_shared_materials h s) = (r, s2)" by force
  from get_output_path_props(4,5) [OF 1] show ?thesis
    by (cases r) (auto simp: execute_def 1 Let_def split: prod.splits)
qed


section \<open>The run\<close>

subsection \<open>the whole run\<close>

lemma duplicate_shared_materials_frame:
  "tree (materials (duplicate_shared_materials h s) m) = tree (materials s m) \<and>
   trace (duplicate_shared_materials h s) = trace s \<and>
   objects (duplicate_shared_materials h s) = objects s"
  by (subst duplicate_shared_materials_eq)+ simp

lemma execute_inv:
  assumes "trace s = []" "\<forall>m'. node_ids_ok (tree (materials s m'))"
  shows "baked m (trace (snd (execute h en s))) \<longrightarrow>
     has_bake_target (tree (materials (snd (execute h en s)) m))"
proof -
  define s1 where "s1 = duplicate_shared_materials h s"
  obtain r s2 where 1: "get_output_path en s1 = (r, s2)" by force
  note p = get_output_path_props(1,2) [OF 1]
  have inv2: "\<forall>m'. node_ids_ok (tree (materials s2 m'))"
    "\<forall>m'. baked m' (trace s2) \<longrightarrow> has_bake_target (tree (materials s2 m'))"
    using assms by (simp_all add: p s1_def duplicate_shared_materials_frame)
  show ?thesis
  proof (cases r)
    case (Inl e)
    with inv2 show ?thesis by (simp add: execute_def s1_def [symmetric] 1)
  next
    case (Inr path)
    show ?thesis
    proof (cases "get_all_materials en s2 = []")
      case True
      with Inr inv2 show ?thesis by (simp add: execute_def s1_def [symmetric] 1)
    next
      case False
      obtain n s3 where 3: "bake_materials h en path (get_all_materials en s2) 0 s2 = (n, s3)"
        by force
      from bake_materials_inv [OF inv2, of h en path "get_all_materials en s2" 0]
      have "baked m (trace s3) \<longrightarrow> has_bake_target (tree (materials s3 m))"
        by (simp add: 3)
      with Inr False show ?thesis
        by (simp add: execute_def s1_def [symmetric] 1 3 cleanup_unused_materials_def)
    qed
  qed
qed

subsection \<open>the calls of a material\<close>

lemma bake_material_calls:
  "\<exists>ev rest. trace (snd (bake_material h en m p s)) = trace s @ ev \<and>
     bake_schedule (case group_objects h m (zip [0..<length (objects s)] (objects s)) [] of
                      Inl e \<Rightarrow> [] | Inr gs \<Rightarrow> gs) = bake_calls ev @ rest \<and>
     (fst (bake_material h en m p s) \<longrightarrow> rest = [])"
proof -
  obtain r s1 where 1: "create_material_folder en (mat_name (materials s m)) p s = (r, s1)"
    by force
  note p1 = create_material_folder_props [OF 1]
  show ?thesis
  proof (cases r)
    case (Inl e)
    then show ?thesis by (simp add: bake_material_def 1 p1)
  next
    case (Inr path)
    show ?thesis
    proof (cases "group_objects h m (zip [0..<length (objects s)] (objects s)) []")
      case (Inl e)
      with Inr show ?thesis by (simp add: bake_material_def 1 p1)
    next
      case gs: (Inr gs)
      from bake_groups_trace [of en m path gs s1] obtain ev rest where
        "trace (snd (bake_groups en m path gs s1)) = trace s @ ev"
        "bake_schedule gs = bake_calls ev @ rest"
        "fst (bake_groups en m path gs s1) \<longrightarrow> rest = []"
        by (auto simp: p1)
      then show ?thesis
        using Inr gs by (cases "gs = []") (auto simp: bake_material_def 1 p1 bake_schedule_def)
    qed
  qed
qed

lemma bake_schedule_count:
  assumes "ty \<in> fst ` set BAKE_TYPES"
  shows "length (filter (\<lambda>x. snd x = ty) (bake_schedule gs)) = length gs"
proof (induction gs)
  case Nil
  then show ?case by (simp add: bake_schedule_def)
next
  case (Cons g gs)
  have "length (filter (\<lambda>x. snd x = ty)
      (map (\<lambda>entry. (Some (hd (snd g)), effective_type entry)) BAKE_TYPES)) = 1"
    using assms by (auto simp: BAKE_TYPES_def effective_type_def)
  with Cons show ?case by (simp add: bake_schedule_def)
qed

subsection \<open>names\<close>

lemma split_on_not_Nil: "split_on c s \<noteq> []"
  by (induction s) (auto split: list.splits)

lemma join_split_on: "join [c] (split_on c s) = s"
proof (induction s)
  case Nil
  then show ?case by simp
next
  case (Cons x xs)
  obtain p ps where ps: "split_on c xs = p # ps"
    using split_on_not_Nil [of c xs] by (cases "split_on c xs") auto
  with Cons show ?case by (cases ps) auto
qed

lemma map_name_of_eq: "map_name_of name suffix = name @ ''_'' @ suffix"
proof -
  obtain p ps where ps: "split_on (CHR ''_'') name = p # ps"
    using split_on_not_Nil [of "CHR ''_''" name] by (cases "split_on (CHR ''_'') name") auto
  show ?thesis
  proof (cases ps)
    case Nil
    then show ?thesis by (simp add: map_name_of_def ps)
  next
    case (Cons q qs)
    from join_split_on [of "CHR ''_''" name] have "p @ ''_'' @ join ''_'' (q # qs) = name"
      by (simp add: ps Cons)
    then show ?thesis by (simp add: map_name_of_def ps Cons)
  qed
qed

subsection \<open>sentinel groups\<close>

lemma process_group_sentinel: "snd (fst e) \<in> set sentinels \<Longrightarrow> process_group h e s = s"
  by (simp add: process_group_def Let_def)

lemma fold_process_group_filter:
  "fold (process_group h) (filter (\<lambda>e. snd (fst e) \<notin> set sentinels) ds) s =
   fold (process_group h) ds s"
  by (induction ds arbitrary: s) (simp_all add: process_group_sentinel)

end
